theory Spec2Isabelle
  imports Main "HOL-Library.Word" "HOL-Library.Multiset" "HOL-Library.Monad_Syntax"
begin

unbundle bit_operations_syntax

section \<open>io_service: post queue and work counter (io_service.hpp)\<close>

text \<open>
  A posted callable takes the service and returns nothing. What it does to the service
  is to post further callables, so a callable is modelled by an identifying tag and the
  callables it posts when it is invoked.
\<close>

datatype callable = Callable nat "callable list"

text \<open>
  \<^verbatim>\<open>struct post_info { io_service *service; detail::function_ptr<void(io_service *)> f; }\<close>.
  A pointer is \<open>None\<close> when null; \<open>post_f\<close> is the member \<^verbatim>\<open>f\<close>.
\<close>

record post_info =
  service :: "nat option"
  post_f :: "callable option"

text \<open>
  The members of \<^verbatim>\<open>class io_service\<close>: \<^verbatim>\<open>_threadh\<close>, \<^verbatim>\<open>_posts_lock\<close> (true while the
  mutex is held), \<^verbatim>\<open>_posts\<close>, \<^verbatim>\<open>_work_queued\<close> (a \<^verbatim>\<open>std::atomic<size_type>\<close>),
  \<^verbatim>\<open>_aiocbsv\<close> (the control blocks of the requests in flight) and \<^verbatim>\<open>_need_signal\<close>.
  \<open>this\<close> is the address of the object, which can be neither moved nor copied.
\<close>

record io_service =
  this :: nat
  threadh :: nat
  posts_lock :: bool
  posts :: "post_info list"
  work_queued :: "64 word"
  aiocbsv :: "nat list"
  need_signal :: bool

datatype fault = Aborted | Front_of_empty_deque | Deadlock | Null_callable

text \<open>\<^verbatim>\<open>void _work_enqueued(size_type i = 1) { _work_queued += i; }\<close>\<close>

definition work_enqueued :: "64 word \<Rightarrow> io_service \<Rightarrow> io_service" where
  "work_enqueued i s = s\<lparr>work_queued := work_queued s + i\<rparr>"

text \<open>\<^verbatim>\<open>void _work_done() { --_work_queued; }\<close>\<close>

definition work_done :: "io_service \<Rightarrow> io_service" where
  "work_done s = s\<lparr>work_queued := work_queued s - 1\<rparr>"

text \<open>
  The search loop of \<^verbatim>\<open>__post_done\<close>. A pointer into the deque is modelled by the
  position of the element it points to (\<open>Some k\<close>; a position past the end of the deque
  is a pointer to no element of it), so \<open>k\<close> below is the address \<^verbatim>\<open>&i\<close> of the
  element being visited. The loop returns \<^verbatim>\<open>pi\<close> and the deque as it leaves them.
\<close>

fun find_post :: "nat option \<Rightarrow> nat \<Rightarrow> post_info list \<Rightarrow> nat option \<times> post_info list" where
  "find_post pi k [] = (pi, [])"
| "find_post pi k (i # rest) =
     (if Some k = pi then (None, i\<lparr>post_f := None, service := None\<rparr> # rest)
      else (case find_post pi (Suc k) rest of (pi', rest') \<Rightarrow> (pi', i # rest')))"

text \<open>
  \<^verbatim>\<open>while(!_posts.front().service) _posts.pop_front();\<close>
  \<^verbatim>\<open>front()\<close> of an empty \<^verbatim>\<open>std::deque\<close> is undefined behaviour; the model stops there
  with \<open>Front_of_empty_deque\<close>.
\<close>

fun pop_consumed :: "post_info list \<Rightarrow> fault + post_info list" where
  "pop_consumed [] = Inl Front_of_empty_deque"
| "pop_consumed (i # rest) = (if service i = None then pop_consumed rest else Inr (i # rest))"

text \<open>
  \<^verbatim>\<open>void __post_done(post_info *pi)\<close>, to be entered with the lock held. Both
  \<^verbatim>\<open>assert(!pi)\<close> and \<^verbatim>\<open>if(pi) abort()\<close> end the process when the entry was not found.
\<close>

definition post_done_held :: "nat option \<Rightarrow> io_service \<Rightarrow> fault + io_service" where
  "post_done_held pi s =
     (case find_post pi 0 (posts s) of (pi', q) \<Rightarrow>
        if pi' \<noteq> None then Inl Aborted
        else (let s1 = work_done (s\<lparr>posts := q\<rparr>) in
              case pop_consumed (posts s1) of
                Inl e \<Rightarrow> Inl e
              | Inr q' \<Rightarrow> Inr (s1\<lparr>posts := q'\<rparr>)))"

text \<open>
  \<^verbatim>\<open>void _post_done(post_info *pi)\<close>: a \<^verbatim>\<open>std::lock_guard\<close> on \<^verbatim>\<open>_posts_lock\<close> around
  \<^verbatim>\<open>__post_done\<close>. Taking a mutex that is already held never returns in a sequential run.
\<close>

definition post_done :: "nat option \<Rightarrow> io_service \<Rightarrow> fault + io_service" where
  "post_done pi s =
     (if posts_lock s then Inl Deadlock
      else (case post_done_held pi (s\<lparr>posts_lock := True\<rparr>) of
              Inl e \<Rightarrow> Inl e
            | Inr s' \<Rightarrow> Inr (s'\<lparr>posts_lock := False\<rparr>)))"

subsection \<open>The statements of \<^verbatim>\<open>_post_done\<close>, one at a time\<close>

text \<open>
  The order in which \<^verbatim>\<open>_post_done\<close> does things matters to what other threads may see,
  so its run is also given as the sequence of the statements it executes, each with its
  effect on the service: taking and dropping \<^verbatim>\<open>_posts_lock\<close>, \<^verbatim>\<open>i.f.reset()\<close> and
  \<^verbatim>\<open>i.service = nullptr\<close> on the entry at position \<open>k\<close>, \<^verbatim>\<open>abort()\<close>, \<^verbatim>\<open>_work_done()\<close>,
  the test \<^verbatim>\<open>!_posts.front().service\<close> of the compaction loop, and \<^verbatim>\<open>_posts.pop_front()\<close>.
\<close>

datatype step =
  Lock_posts | Unlock_posts | Reset_callable nat | Null_service nat | Abort_process
  | Decrement_work | Read_front | Pop_front

fun do_step :: "step \<Rightarrow> io_service \<Rightarrow> fault + io_service" where
  "do_step Lock_posts s = (if posts_lock s then Inl Deadlock else Inr (s\<lparr>posts_lock := True\<rparr>))"
| "do_step Unlock_posts s = Inr (s\<lparr>posts_lock := False\<rparr>)"
| "do_step (Reset_callable k) s = Inr (s\<lparr>posts := (posts s)[k := (posts s ! k)\<lparr>post_f := None\<rparr>]\<rparr>)"
| "do_step (Null_service k) s = Inr (s\<lparr>posts := (posts s)[k := (posts s ! k)\<lparr>service := None\<rparr>]\<rparr>)"
| "do_step Abort_process s = Inl Aborted"
| "do_step Decrement_work s = Inr (work_done s)"
| "do_step Read_front s = (if posts s = [] then Inl Front_of_empty_deque else Inr s)"
| "do_step Pop_front s = Inr (s\<lparr>posts := tl (posts s)\<rparr>)"

fun run_steps :: "step list \<Rightarrow> io_service \<Rightarrow> fault + io_service" where
  "run_steps [] s = Inr s"
| "run_steps (x # xs) s = (case do_step x s of Inl e \<Rightarrow> Inl e | Inr s' \<Rightarrow> run_steps xs s')"

text \<open>The statements of the compaction loop on the queue \<open>q\<close>.\<close>

fun pop_steps :: "post_info list \<Rightarrow> step list" where
  "pop_steps [] = [Read_front]"
| "pop_steps (i # rest) = Read_front # (if service i = None then Pop_front # pop_steps rest else [])"

text \<open>The statements of \<^verbatim>\<open>__post_done(pi)\<close> and of \<^verbatim>\<open>_post_done(pi)\<close> on the service \<open>s\<close>.\<close>

definition post_done_held_steps :: "nat option \<Rightarrow> io_service \<Rightarrow> step list" where
  "post_done_held_steps pi s =
     (case find_post pi 0 (posts s) of (pi', q) \<Rightarrow>
        (case pi of
           None \<Rightarrow> []
         | Some k \<Rightarrow> if pi' = None then [Reset_callable k, Null_service k] else [])
        @ (if pi' \<noteq> None then [Abort_process] else Decrement_work # pop_steps q))"

definition post_done_steps :: "nat option \<Rightarrow> io_service \<Rightarrow> step list" where
  "post_done_steps pi s =
     Lock_posts # post_done_held_steps pi (s\<lparr>posts_lock := True\<rparr>) @ [Unlock_posts]"

subsection \<open>The operations defined outside the header\<close>

text \<open>
  Modelled from the spec: the constructor \<^verbatim>\<open>io_service()\<close>, declared in the header and
  defined in the platform file that is not part of the sources. The spec: a service is
  instantiated with no arguments and captures the calling thread. \<open>a\<close> is the address
  of the new object, \<open>t\<close> the calling thread.
\<close>

definition io_service_ctor :: "nat \<Rightarrow> nat \<Rightarrow> io_service" where
  "io_service_ctor a t =
     \<lparr>this = a, threadh = t, posts_lock = False, posts = [], work_queued = 0,
      aiocbsv = [], need_signal = False\<rparr>"

text \<open>
  Modelled from the spec: \<^verbatim>\<open>post(f)\<close>, declared in the header and defined in the missing
  platform file. The spec: it takes the post lock, enqueues the callable, increments the
  work counter and reads and clears the need-signal flag, firing the wake if it was set.
\<close>

definition post :: "callable \<Rightarrow> io_service \<Rightarrow> fault + io_service" where
  "post c s =
     (if posts_lock s then Inl Deadlock
      else Inr ((work_enqueued 1
                  (s\<lparr>posts := posts s @ [\<lparr>service = Some (this s), post_f = Some c\<rparr>]\<rparr>))
                \<lparr>need_signal := False\<rparr>))"

fun post_all :: "callable list \<Rightarrow> io_service \<Rightarrow> fault + io_service" where
  "post_all [] s = Inr s"
| "post_all (c # cs) s = (case post c s of Inl e \<Rightarrow> Inl e | Inr s' \<Rightarrow> post_all cs s')"

text \<open>Invoking a callable on the service: it posts its callables in order.\<close>

fun invoke :: "callable \<Rightarrow> io_service \<Rightarrow> fault + io_service" where
  "invoke (Callable n cs) s = post_all cs s"

text \<open>
  Modelled from the spec: submission of an I/O request by a handle (the handle's code is
  not part of the sources). The spec: the work counter is incremented before any
  registration that the run loop must observe, and the request registers its control
  block in \<^verbatim>\<open>_aiocbsv\<close>.
\<close>

definition submit :: "nat \<Rightarrow> io_service \<Rightarrow> io_service" where
  "submit r s = (let s1 = work_enqueued 1 s in s1\<lparr>aiocbsv := aiocbsv s1 @ [r]\<rparr>)"

text \<open>
  Modelled from the spec: delivery of the completion of request \<open>r\<close> (in the missing
  platform file). The spec: the owner removes the control block from the vector, fires
  the completion hook, and the work counter is decremented once per completion.
\<close>

definition complete :: "nat \<Rightarrow> io_service \<Rightarrow> io_service" where
  "complete r s = work_done (s\<lparr>aiocbsv := remove1 r (aiocbsv s)\<rparr>)"

text \<open>
  Modelled from the spec: dispatch of the post at position \<open>k\<close> (the run loop dispatches
  the front, \<open>k = 0\<close>). The spec: take the post lock, move out the callable, drop the
  lock, invoke the callable, reacquire the lock to mark the slot consumed, decrement the
  work counter, and pop consumed prefix entries; the last three are \<^verbatim>\<open>_post_done\<close> of the
  header. Calling through an empty \<^verbatim>\<open>function_ptr\<close> is undefined; where the queue has no
  entry at position \<open>k\<close> there is nothing to dispatch.
\<close>

definition dispatch :: "nat \<Rightarrow> io_service \<Rightarrow> fault + io_service" where
  "dispatch k s =
     (if length (posts s) \<le> k then Inr s
      else if posts_lock s then Inl Deadlock
      else (case post_f (posts s ! k) of
              None \<Rightarrow> Inl Null_callable
            | Some c \<Rightarrow>
                (case invoke c (s\<lparr>posts := (posts s)[k := (posts s ! k)\<lparr>post_f := None\<rparr>]\<rparr>) of
                   Inl e \<Rightarrow> Inl e
                 | Inr s1 \<Rightarrow> post_done (Some k) s1)))"

text \<open>
  Modelled from the spec: the deadline type (its header is not part of the sources).
  The spec: \<^verbatim>\<open>{ is_relative: bool, seconds: u64, nanoseconds: u32 }\<close> with a distinguished
  \<^emph>\<open>never\<close> value, which is what \<^verbatim>\<open>deadline()\<close> constructs; a deadline with
  \<^verbatim>\<open>nanoseconds >= 10^9\<close> is malformed.
\<close>

datatype deadline = Never | Deadline (is_relative: bool) (seconds: "64 word") (nanoseconds: "32 word")

definition malformed :: "deadline \<Rightarrow> bool" where
  "malformed d = (case d of Never \<Rightarrow> False | Deadline r sec ns \<Rightarrow> 1000000000 \<le> ns)"

datatype errc = timed_out | operation_not_supported | invalid_argument | os_error nat

text \<open>
  Modelled from the spec: the backend wait \<^verbatim>\<open>wait_one(deadline)\<close> of the POSIX variant.
  What the kernel does during the wait is an input: \<open>Finished rs\<close> when the requests
  \<open>rs\<close> are no longer in progress at the end of the wait, \<open>Wait_error e\<close> when the wait
  fails with the OS error \<open>e\<close>. The spec: the owner scans the vector in order for the
  first completed block; if none completes, the wait ends when the deadline passes. With
  the deadline \<^emph>\<open>never\<close> such a wait does not return.
\<close>

datatype kernel = Finished "nat list" | Wait_error nat

datatype wait_result = Completed nat | Timeout | Os_error nat | No_return

definition wait_one :: "deadline \<Rightarrow> kernel \<Rightarrow> io_service \<Rightarrow> wait_result" where
  "wait_one d k s =
     (case k of
        Wait_error e \<Rightarrow> Os_error e
      | Finished rs \<Rightarrow>
          (case find (\<lambda>r. r \<in> set rs) (aiocbsv s) of
             Some r \<Rightarrow> Completed r
           | None \<Rightarrow> if d = Never then No_return else Timeout))"

text \<open>
  Modelled from the spec: \<^verbatim>\<open>run_until(deadline d)\<close>, declared in the header and defined
  in the missing platform file. The spec, in this order: (1) called from a non-owning
  thread, fail with not-supported; (2) malformed deadline, fail with invalid-argument;
  (3) work counter zero, return false; (4) dispatch the front post and return true
  immediately after it has executed; (5) otherwise wait on the completion backend: if an
  I/O completes return true, if the deadline passes fail with timed-out. The need-signal
  flag is set before the wait and cleared after it.
  The result lists what the call did (the callable it invoked, whether it waited) and
  how it ended: a returned \<^verbatim>\<open>result<bool>\<close> with the service as it is left, a wait that
  never returns, or undefined behaviour.
\<close>

datatype action = Invoke callable | Wait_backend

datatype outcome = Returns "errc + bool" io_service | Blocks | Undefined fault

definition run_until :: "deadline \<Rightarrow> nat \<Rightarrow> kernel \<Rightarrow> io_service \<Rightarrow> action list \<times> outcome" where
  "run_until d caller k s =
     (if caller \<noteq> threadh s then ([], Returns (Inl operation_not_supported) s)
      else if malformed d then ([], Returns (Inl invalid_argument) s)
      else if work_queued s = 0 then ([], Returns (Inr False) s)
      else if posts s \<noteq> [] then
        (case post_f (hd (posts s)) of None \<Rightarrow> [] | Some c \<Rightarrow> [Invoke c],
         case dispatch 0 s of Inl e \<Rightarrow> Undefined e | Inr s' \<Rightarrow> Returns (Inr True) s')
      else
        ([Wait_backend],
         case wait_one d k (s\<lparr>need_signal := True\<rparr>) of
           Completed r \<Rightarrow> Returns (Inr True) ((complete r s)\<lparr>need_signal := False\<rparr>)
         | Timeout \<Rightarrow> Returns (Inl timed_out) (s\<lparr>need_signal := False\<rparr>)
         | Os_error e \<Rightarrow> Returns (Inl (os_error e)) (s\<lparr>need_signal := False\<rparr>)
         | No_return \<Rightarrow> Blocks))"

text \<open>\<^verbatim>\<open>result<bool> run() noexcept { return run_until(deadline()); }\<close>\<close>

definition run :: "nat \<Rightarrow> kernel \<Rightarrow> io_service \<Rightarrow> action list \<times> outcome" where
  "run caller k s = run_until Never caller k s"

subsection \<open>Sequences of operations on a service\<close>

text \<open>
  The four kinds of operation that change the work counter. A completion can only be
  delivered for a request that is in flight, and only a post that has not been
  dispatched yet can be dispatched (\<open>Dispatch k\<close> dispatches the post at position
  \<open>k\<close> of the queue); any other completion or dispatch does not take place.
\<close>

datatype event = Post callable | Submit nat | Completion nat | Dispatch nat

fun apply_event :: "event \<Rightarrow> io_service \<Rightarrow> fault + io_service" where
  "apply_event (Post c) s = post c s"
| "apply_event (Submit r) s = Inr (submit r s)"
| "apply_event (Completion r) s = (if r \<in> set (aiocbsv s) then Inr (complete r s) else Inr s)"
| "apply_event (Dispatch k) s =
     (if k < length (posts s) \<and> service (posts s ! k) \<noteq> None then dispatch k s else Inr s)"

fun run_events :: "event list \<Rightarrow> io_service \<Rightarrow> fault + io_service" where
  "run_events [] s = Inr s"
| "run_events (e # es) s =
     (case apply_event e s of Inl x \<Rightarrow> Inl x | Inr s' \<Rightarrow> run_events es s')"

text \<open>The posts that have been enqueued and not dispatched yet.\<close>

definition pending :: "io_service \<Rightarrow> nat" where
  "pending s = length (filter (\<lambda>i. service i \<noteq> None) (posts s))"

text \<open>
  A schedule of producer threads and the owning thread: a producer posts a callable, or
  the owner calls \<^verbatim>\<open>run()\<close>. The result lists, for each call of the owner, what the call did
  and how it ended; the schedule stops at a call that does not return.
\<close>

datatype sched = Producer nat callable | Owner_runs

fun run_schedule :: "sched list \<Rightarrow> kernel \<Rightarrow> io_service \<Rightarrow> (action list \<times> outcome) list" where
  "run_schedule [] k s = []"
| "run_schedule (Producer p c # rest) k s =
     (case post c s of Inl e \<Rightarrow> [([], Undefined e)] | Inr s' \<Rightarrow> run_schedule rest k s')"
| "run_schedule (Owner_runs # rest) k s =
     (case run (threadh s) k s of
        (acts, Returns r s') \<Rightarrow> (acts, Returns r s') # run_schedule rest k s'
      | (acts, out) \<Rightarrow> [(acts, out)])"

text \<open>
  The work each operation adds to the service and the work it retires, as the spec counts
  them: a post and a submission add one unit each, a dispatched callable adds one unit for
  each callable it posts; a delivered completion and a dispatch retire one unit each.
\<close>

fun enqueued :: "event \<Rightarrow> io_service \<Rightarrow> nat" where
  "enqueued (Post c) s = 1"
| "enqueued (Submit r) s = 1"
| "enqueued (Completion r) s = 0"
| "enqueued (Dispatch k) s =
     (if k < length (posts s) \<and> service (posts s ! k) \<noteq> None
      then (case post_f (posts s ! k) of None \<Rightarrow> 0 | Some (Callable n cs) \<Rightarrow> length cs)
      else 0)"

fun retired :: "event \<Rightarrow> io_service \<Rightarrow> nat" where
  "retired (Post c) s = 0"
| "retired (Submit r) s = 0"
| "retired (Completion r) s = (if r \<in> set (aiocbsv s) then 1 else 0)"
| "retired (Dispatch k) s =
     (if k < length (posts s) \<and> service (posts s ! k) \<noteq> None then 1 else 0)"

text \<open>The work counter invariant of the spec, in the arithmetic of \<^verbatim>\<open>size_type\<close>.\<close>

definition accounted :: "io_service \<Rightarrow> bool" where
  "accounted s = (work_queued s = of_nat (pending s + length (aiocbsv s)))"

text \<open>An entry whose service pointer is null holds no callable any more.\<close>

definition released_if_consumed :: "post_info \<Rightarrow> bool" where
  "released_if_consumed i = (service i \<noteq> None \<or> post_f i = None)"

subsection \<open>Services used as examples\<close>

text \<open>A service constructed at address 0 by thread 1, with nothing to do.\<close>

definition svc_idle :: io_service where
  "svc_idle = io_service_ctor 0 1"

text \<open>The same service after one callable, which posts nothing, has been posted.\<close>

definition svc_one_post :: io_service where
  "svc_one_post =
     \<lparr>this = 0, threadh = 1, posts_lock = False,
      posts = [\<lparr>service = Some 0, post_f = Some (Callable 7 [])\<rparr>],
      work_queued = 1, aiocbsv = [], need_signal = False\<rparr>"

text \<open>
  A service with one request in flight and three queue entries, the second of which has
  been dispatched ahead of the first and waits to be popped.
\<close>

definition svc_busy :: io_service where
  "svc_busy =
     \<lparr>this = 0, threadh = 1, posts_lock = False,
      posts = [\<lparr>service = Some 0, post_f = Some (Callable 1 [])\<rparr>,
               \<lparr>service = None, post_f = None\<rparr>,
               \<lparr>service = Some 0, post_f = Some (Callable 3 [])\<rparr>],
      work_queued = 3, aiocbsv = [5], need_signal = False\<rparr>"

text \<open>
  The service above after \<^verbatim>\<open>_post_done\<close> on its first entry: the first two entries, both
  consumed by then, have been popped.
\<close>

definition svc_busy_done :: io_service where
  "svc_busy_done =
     \<lparr>this = 0, threadh = 1, posts_lock = False,
      posts = [\<lparr>service = Some 0, post_f = Some (Callable 3 [])\<rparr>],
      work_queued = 2, aiocbsv = [5], need_signal = False\<rparr>"

text \<open>
  A service with one request in flight and one post, which is being dispatched: its
  callable has been moved out and invoked, and \<^verbatim>\<open>_post_done\<close> is about to be called on it.
\<close>

definition svc_last_post :: io_service where
  "svc_last_post =
     \<lparr>this = 0, threadh = 1, posts_lock = False,
      posts = [\<lparr>service = Some 0, post_f = None\<rparr>],
      work_queued = 2, aiocbsv = [5], need_signal = False\<rparr>"

section \<open>utils: hexadecimal strings (utils.hpp)\<close>

text \<open>
  A \<^verbatim>\<open>char\<close> is a byte, a \<^verbatim>\<open>size_t\<close> a 64-bit word whose arithmetic wraps around. A
  buffer is passed as a pointer and a length: the list holds its bytes, and an index is
  inside the buffer when it is below the length passed and the buffer has a byte there.
  An access outside the buffer is undefined behaviour; the model stops there.
\<close>

type_synonym byte = "8 word"
type_synonym size_t = "64 word"

datatype hex_fault = Invalid_argument string | Out_of_bounds

definition rd :: "byte list \<Rightarrow> size_t \<Rightarrow> size_t \<Rightarrow> byte option" where
  "rd buf len i = (if i < len \<and> unat i < length buf then Some (buf ! unat i) else None)"

definition wr :: "byte list \<Rightarrow> size_t \<Rightarrow> size_t \<Rightarrow> byte \<Rightarrow> byte list option" where
  "wr buf len i v = (if i < len \<and> unat i < length buf then Some (buf[unat i := v]) else None)"

text \<open>\<^verbatim>\<open>static constexpr char table[] = "0123456789abcdef";\<close> with its terminating zero.\<close>

definition to_hex_table :: "byte list" where
  "to_hex_table = [48, 49, 50, 51, 52, 53, 54, 55, 56, 57, 97, 98, 99, 100, 101, 102, 0]"

text \<open>\<^verbatim>\<open>table[(x >> 4) & 0xf]\<close> and \<^verbatim>\<open>table[x & 0xf]\<close> for an \<^verbatim>\<open>unsigned char x\<close>.\<close>

definition hi_digit :: "byte \<Rightarrow> byte" where
  "hi_digit x = to_hex_table ! unat (drop_bit 4 x AND 15)"

definition lo_digit :: "byte \<Rightarrow> byte" where
  "lo_digit x = to_hex_table ! unat (x AND 15)"

text \<open>The body of the loop of \<^verbatim>\<open>to_hex_string\<close>, statement by statement.\<close>

definition to_hex_body :: "byte list \<Rightarrow> size_t \<Rightarrow> byte list \<Rightarrow> size_t \<Rightarrow> size_t \<Rightarrow> byte list option" where
  "to_hex_body out outlen inp inlen n = do {
     a \<leftarrow> rd inp inlen (n + 1);
     out \<leftarrow> wr out outlen (n * 2 + 3) (hi_digit a);
     a \<leftarrow> rd inp inlen (n + 1);
     out \<leftarrow> wr out outlen (n * 2 + 2) (lo_digit a);
     b \<leftarrow> rd inp inlen n;
     out \<leftarrow> wr out outlen (n * 2 + 1) (hi_digit b);
     b \<leftarrow> rd inp inlen n;
     wr out outlen (n * 2 + 0) (lo_digit b)
   }"

text \<open>\<^verbatim>\<open>for (size_t n = inlen - 2; n <= inlen - 2; n -= 2) { ... }\<close>\<close>

function to_hex_loop :: "byte list \<Rightarrow> size_t \<Rightarrow> byte list \<Rightarrow> size_t \<Rightarrow> size_t \<Rightarrow> hex_fault + byte list" where
  "to_hex_loop out outlen inp inlen n =
     (if n \<le> inlen - 2 then
        (case to_hex_body out outlen inp inlen n of
           None \<Rightarrow> Inl Out_of_bounds
         | Some out' \<Rightarrow> to_hex_loop out' outlen inp inlen (n - 2))
      else Inr out)"
  by pat_completeness auto
termination
proof (relation "measure (\<lambda>(out, outlen, inp, inlen, n).
                   if n + 1 < inlen \<and> n < inlen then Suc (unat n) else 0)")
  show "wf (measure (\<lambda>(out, outlen, inp, inlen, n).
                   if n + 1 < inlen \<and> n < inlen then Suc (unat n) else 0))"
    by simp
next
  fix out :: "byte list" and outlen :: size_t and inp :: "byte list" and inlen n :: size_t
    and out' :: "byte list"
  assume "to_hex_body out outlen inp inlen n = Some out'"
  then have b: "n + 1 < inlen" "n < inlen"
    by (auto simp: to_hex_body_def rd_def split: bind_splits if_splits)
  have "n - 2 + 1 < inlen \<and> n - 2 < inlen \<Longrightarrow> unat (n - 2) < unat n"
  proof -
    assume a: "n - 2 + 1 < inlen \<and> n - 2 < inlen"
    have "2 \<le> n"
    proof (rule ccontr)
      assume "\<not> 2 \<le> n"
      then have "unat n < 2" by (simp add: word_le_nat_alt)
      then have "unat n = 0 \<or> unat n = 1" by arith
      then have "n = 0 \<or> n = 1" by (simp add: word_unat_eq_iff)
      then show False
      proof
        assume "n = 0"
        with a have "(- 1 :: size_t) < inlen" by simp
        then show False by simp
      next
        assume "n = 1"
        with a have "(- 1 :: size_t) < inlen" by simp
        then show False by simp
      qed
    qed
    then have "unat (n - 2) = unat n - 2" by (simp add: unat_sub)
    moreover from \<open>2 \<le> n\<close> have "2 \<le> unat n" by (simp add: word_le_nat_alt)
    ultimately show ?thesis by simp
  qed
  with b show "((out', outlen, inp, inlen, n - 2), (out, outlen, inp, inlen, n))
      \<in> measure (\<lambda>(out, outlen, inp, inlen, n).
                   if n + 1 < inlen \<and> n < inlen then Suc (unat n) else 0)"
    by auto
qed

declare to_hex_loop.simps [simp del]

text \<open>
  \<^verbatim>\<open>size_t to_hex_string(char *out, size_t outlen, const char *_in, size_t inlen)\<close>:
  the updated output buffer and the value returned, an exception thrown, or an access
  outside a buffer. The two buffers are distinct.
\<close>

definition to_hex_string ::
  "byte list \<Rightarrow> size_t \<Rightarrow> byte list \<Rightarrow> size_t \<Rightarrow> hex_fault + byte list \<times> size_t" where
  "to_hex_string out outlen inp inlen =
     (if outlen < inlen * 2 then Inl (Invalid_argument ''Output buffer too small.'')
      else (case to_hex_loop out outlen inp inlen (inlen - 2) of
              Inl e \<Rightarrow> Inl e
            | Inr out1 \<Rightarrow>
                if inlen AND 1 \<noteq> 0 then
                  (case do {
                          a \<leftarrow> rd inp inlen 0;
                          out2 \<leftarrow> wr out1 outlen 1 (hi_digit a);
                          a \<leftarrow> rd inp inlen 0;
                          wr out2 outlen 0 (lo_digit a)
                        } of
                     None \<Rightarrow> Inl Out_of_bounds
                   | Some out3 \<Rightarrow> Inr (out3, inlen * 2))
                else Inr (out1, inlen * 2)))"

text \<open>
  \<^verbatim>\<open>std::string to_hex_string(std::string in)\<close>: the output string has twice the size of
  the input and is filled with spaces before the conversion.
\<close>

definition to_hex_string_s :: "byte list \<Rightarrow> hex_fault + byte list" where
  "to_hex_string_s inp =
     (let out = replicate (length inp * 2) 32 in
      case to_hex_string out (of_nat (length out)) inp (of_nat (length inp)) of
        Inl e \<Rightarrow> Inl e
      | Inr (out', r) \<Rightarrow> Inr out')"

text \<open>The table of the lambda \<^verbatim>\<open>fromhex\<close>, indexed by \<^verbatim>\<open>c - 48\<close>.\<close>

definition fromhex_table :: "byte list" where
  "fromhex_table =
     [0, 1, 2, 3, 4, 5, 6, 7, 8, 9,
      255, 255, 255, 255, 255, 255, 255,
      10, 11, 12, 13, 14, 15,
      255, 255, 255, 255, 255, 255, 255, 255, 255, 255, 255, 255, 255,
      255, 255, 255, 255, 255, 255, 255, 255, 255, 255, 255, 255, 255,
      10, 11, 12, 13, 14, 15]"

text \<open>
  \<^verbatim>\<open>fromhex\<close> captures \<^verbatim>\<open>is_invalid\<close> by reference: it takes the flag and returns it
  with the digit.
\<close>

definition fromhex :: "bool \<Rightarrow> byte \<Rightarrow> byte \<times> bool" where
  "fromhex is_invalid c =
     (let r = (if 48 \<le> c \<and> c \<le> 102 then fromhex_table ! unat (c - 48) else 255)
      in (r, if r = 255 then True else is_invalid))"

text \<open>
  \<^verbatim>\<open>(hi << 4) | lo\<close> on two \<^verbatim>\<open>unsigned char\<close>: computed in \<^verbatim>\<open>int\<close>, then stored into a
  \<^verbatim>\<open>char\<close>.
\<close>

definition combine :: "byte \<Rightarrow> byte \<Rightarrow> byte" where
  "combine hi lo = ucast (push_bit 4 (ucast hi :: 32 word) OR (ucast lo :: 32 word))"

text \<open>The body of the first loop of \<^verbatim>\<open>from_hex_string\<close>, four bytes of output at a time.\<close>

definition from_hex_body4 ::
  "byte list \<Rightarrow> size_t \<Rightarrow> byte list \<Rightarrow> size_t \<Rightarrow> bool \<Rightarrow> size_t \<Rightarrow> (byte list \<times> bool) option" where
  "from_hex_body4 out outlen inp inlen is_invalid n = do {
     x \<leftarrow> rd inp inlen (n * 2);
     let (c0, is_invalid) = fromhex is_invalid x;
     x \<leftarrow> rd inp inlen (n * 2 + 1);
     let (c1, is_invalid) = fromhex is_invalid x;
     x \<leftarrow> rd inp inlen (n * 2 + 2);
     let (c2, is_invalid) = fromhex is_invalid x;
     x \<leftarrow> rd inp inlen (n * 2 + 3);
     let (c3, is_invalid) = fromhex is_invalid x;
     out \<leftarrow> wr out outlen n (combine c1 c0);
     x \<leftarrow> rd inp inlen (n * 2 + 4);
     let (c4, is_invalid) = fromhex is_invalid x;
     x \<leftarrow> rd inp inlen (n * 2 + 5);
     let (c5, is_invalid) = fromhex is_invalid x;
     out \<leftarrow> wr out outlen (n + 1) (combine c3 c2);
     x \<leftarrow> rd inp inlen (n * 2 + 6);
     let (c6, is_invalid) = fromhex is_invalid x;
     x \<leftarrow> rd inp inlen (n * 2 + 7);
     let (c7, is_invalid) = fromhex is_invalid x;
     out \<leftarrow> wr out outlen (n + 2) (combine c5 c4);
     out \<leftarrow> wr out outlen (n + 3) (combine c7 c6);
     Some (out, is_invalid)
   }"

text \<open>\<^verbatim>\<open>for (size_t n = 0; n < inlen / 2; n += 4) { ... }\<close>\<close>

function from_hex_loop4 ::
  "byte list \<Rightarrow> size_t \<Rightarrow> byte list \<Rightarrow> size_t \<Rightarrow> bool \<Rightarrow> size_t \<Rightarrow> hex_fault + byte list \<times> bool" where
  "from_hex_loop4 out outlen inp inlen is_invalid n =
     (if n < inlen div 2 then
        (case from_hex_body4 out outlen inp inlen is_invalid n of
           None \<Rightarrow> Inl Out_of_bounds
         | Some (out', is_invalid') \<Rightarrow> from_hex_loop4 out' outlen inp inlen is_invalid' (n + 4))
      else Inr (out, is_invalid))"
  by pat_completeness auto
termination
proof (relation "measure (\<lambda>(out, outlen, inp, inlen, is_invalid, n). unat (inlen div 2) - unat n)")
  show "wf (measure (\<lambda>(out, outlen, inp, inlen, is_invalid, n). unat (inlen div 2) - unat n))"
    by simp
next
  fix out :: "byte list" and outlen :: size_t and inp :: "byte list" and inlen :: size_t
    and is_invalid :: bool and n :: size_t and x2 :: "byte list \<times> bool"
    and out' :: "byte list" and is_invalid' :: bool
  assume lt: "n < inlen div 2"
  have "unat (inlen div 2) = unat inlen div 2" by (simp add: unat_div)
  moreover have "unat inlen < 2 ^ 64" using unsigned_less [of inlen, where ?'a = nat] by simp
  ultimately have half: "unat (inlen div 2) < 2 ^ 63" by simp
  from lt have lt': "unat n < unat (inlen div 2)" by (simp add: word_less_nat_alt)
  with half have "unat n + unat (4 :: size_t) < 2 ^ LENGTH(64)" by simp
  then have "unat (n + 4) = unat n + 4" by (simp add: unat_add_lem [THEN iffD1])
  with lt' show "((out', outlen, inp, inlen, is_invalid', n + 4), (out, outlen, inp, inlen, is_invalid, n))
      \<in> measure (\<lambda>(out, outlen, inp, inlen, is_invalid, n). unat (inlen div 2) - unat n)"
    by simp
qed

declare from_hex_loop4.simps [simp del]

text \<open>
  \<^verbatim>\<open>for (size_t n = inlen / 2 - (inlen / 2) % 4; n < inlen / 2; n++) { ... }\<close>, one byte
  of output at a time.
\<close>

definition from_hex_body1 ::
  "byte list \<Rightarrow> size_t \<Rightarrow> byte list \<Rightarrow> size_t \<Rightarrow> bool \<Rightarrow> size_t \<Rightarrow> (byte list \<times> bool) option" where
  "from_hex_body1 out outlen inp inlen is_invalid n = do {
     x \<leftarrow> rd inp inlen (n * 2);
     let (c1, is_invalid) = fromhex is_invalid x;
     x \<leftarrow> rd inp inlen (n * 2 + 1);
     let (c2, is_invalid) = fromhex is_invalid x;
     out \<leftarrow> wr out outlen n (combine c2 c1);
     Some (out, is_invalid)
   }"

function from_hex_loop1 ::
  "byte list \<Rightarrow> size_t \<Rightarrow> byte list \<Rightarrow> size_t \<Rightarrow> bool \<Rightarrow> size_t \<Rightarrow> hex_fault + byte list \<times> bool" where
  "from_hex_loop1 out outlen inp inlen is_invalid n =
     (if n < inlen div 2 then
        (case from_hex_body1 out outlen inp inlen is_invalid n of
           None \<Rightarrow> Inl Out_of_bounds
         | Some (out', is_invalid') \<Rightarrow> from_hex_loop1 out' outlen inp inlen is_invalid' (n + 1))
      else Inr (out, is_invalid))"
  by pat_completeness auto
termination
proof (relation "measure (\<lambda>(out, outlen, inp, inlen, is_invalid, n). unat (inlen div 2) - unat n)")
  show "wf (measure (\<lambda>(out, outlen, inp, inlen, is_invalid, n). unat (inlen div 2) - unat n))"
    by simp
next
  fix out :: "byte list" and outlen :: size_t and inp :: "byte list" and inlen :: size_t
    and is_invalid :: bool and n :: size_t and x2 :: "byte list \<times> bool"
    and out' :: "byte list" and is_invalid' :: bool
  assume lt: "n < inlen div 2"
  have "unat (inlen div 2) = unat inlen div 2" by (simp add: unat_div)
  moreover have "unat inlen < 2 ^ 64" using unsigned_less [of inlen, where ?'a = nat] by simp
  ultimately have half: "unat (inlen div 2) < 2 ^ 63" by simp
  from lt have lt': "unat n < unat (inlen div 2)" by (simp add: word_less_nat_alt)
  with half have "unat n + unat (1 :: size_t) < 2 ^ LENGTH(64)" by simp
  then have "unat (n + 1) = unat n + 1" by (simp add: unat_add_lem [THEN iffD1])
  with lt' show "((out', outlen, inp, inlen, is_invalid', n + 1), (out, outlen, inp, inlen, is_invalid, n))
      \<in> measure (\<lambda>(out, outlen, inp, inlen, is_invalid, n). unat (inlen div 2) - unat n)"
    by simp
qed

declare from_hex_loop1.simps [simp del]

text \<open>
  \<^verbatim>\<open>size_t from_hex_string(char *out, size_t outlen, const char *in, size_t inlen)\<close>
\<close>

definition from_hex_string ::
  "byte list \<Rightarrow> size_t \<Rightarrow> byte list \<Rightarrow> size_t \<Rightarrow> hex_fault + byte list \<times> size_t" where
  "from_hex_string out outlen inp inlen =
     (if inlen mod 2 \<noteq> 0 then Inl (Invalid_argument ''Input buffer not multiple of two.'')
      else if outlen < inlen div 2 then Inl (Invalid_argument ''Output buffer too small.'')
      else (case from_hex_loop4 out outlen inp inlen False 0 of
              Inl e \<Rightarrow> Inl e
            | Inr (out1, is_invalid1) \<Rightarrow>
                (case from_hex_loop1 out1 outlen inp inlen is_invalid1
                        (inlen div 2 - (inlen div 2) mod 4) of
                   Inl e \<Rightarrow> Inl e
                 | Inr (out2, is_invalid2) \<Rightarrow>
                     if is_invalid2 then Inl (Invalid_argument ''Input is not hexadecimal.'')
                     else Inr (out2, inlen div 2))))"

text \<open>
  The hexadecimal string of a buffer as the documentation of \<^verbatim>\<open>to_hex_string\<close> describes
  it: two characters of the table for each byte, the one for the low half first.
\<close>

definition hex_of :: "byte list \<Rightarrow> byte list" where
  "hex_of b = concat (map (\<lambda>x. [lo_digit x, hi_digit x]) b)"

section \<open>shared_fs_mutex::entities_guard (the base header of the shared-filesystem mutexes)\<close>

text \<open>
  \<^verbatim>\<open>struct entity_type { value_type value : 63; value_type exclusive : 1; }\<close>; the
  constructor keeps the low 63 bits of the value it is given.
\<close>

record entity_type =
  entity_value :: "64 word"
  exclusive :: bool

definition entity :: "64 word \<Rightarrow> bool \<Rightarrow> entity_type" where
  "entity v e = \<lparr>entity_value = take_bit 63 v, exclusive = e\<rparr>"

text \<open>
  \<^verbatim>\<open>using entities_type = span<entity_type>\<close>: a pointer (\<open>None\<close> when null) and a
  count. \<^verbatim>\<open>entities_type()\<close> is the empty span.
\<close>

datatype entities_type = Span "nat option" nat

text \<open>
  The members of \<^verbatim>\<open>class entities_guard\<close>: \<^verbatim>\<open>_entity\<close>, \<^verbatim>\<open>parent\<close> (\<open>None\<close> when null),
  \<^verbatim>\<open>entities\<close> and \<^verbatim>\<open>hint\<close>.
\<close>

record entities_guard =
  guard_entity :: entity_type
  parent :: "nat option"
  entities :: entities_type
  hint :: "64 word"

text \<open>
  \<^verbatim>\<open>parent->unlock(entities, hint)\<close> is a pure virtual function of the mutex; a call of
  it is recorded with the mutex it is made on and its two arguments.
\<close>

type_synonym unlock_call = "nat \<times> entities_type \<times> 64 word"

text \<open>\<^verbatim>\<open>void release() noexcept { parent = nullptr; entities = entities_type(); }\<close>\<close>

definition release :: "entities_guard \<Rightarrow> entities_guard" where
  "release g = g\<lparr>parent := None, entities := Span None 0\<rparr>"

text \<open>\<^verbatim>\<open>void unlock() noexcept { if(parent) { parent->unlock(entities, hint); release(); } }\<close>\<close>

definition unlock :: "entities_guard \<Rightarrow> unlock_call list \<Rightarrow> entities_guard \<times> unlock_call list" where
  "unlock g calls =
     (case parent g of
        Some p \<Rightarrow> (release g, calls @ [(p, entities g, hint g)])
      | None \<Rightarrow> (g, calls))"

text \<open>\<^verbatim>\<open>~entities_guard() { if(parent) unlock(); }\<close>\<close>

definition destructor :: "entities_guard \<Rightarrow> unlock_call list \<Rightarrow> entities_guard \<times> unlock_call list" where
  "destructor g calls = (case parent g of Some p \<Rightarrow> unlock g calls | None \<Rightarrow> (g, calls))"



text \<open>
  Guards are objects that refer to each other in the move operations, so they live in a
  store: the guard at address \<open>a\<close> is the \<open>a\<close>-th element of \<open>guards\<close>, a new guard
  is constructed at the next free address, and the storage of a destroyed guard stays
  where it is. \<open>unlocked\<close> lists the calls of \<^verbatim>\<open>parent->unlock\<close> made so far. An
  operation on an address that holds no guard has no result.
\<close>

record world =
  guards :: "entities_guard list"
  unlocked :: "unlock_call list"

text \<open>
  \<^verbatim>\<open>entities_guard(shared_fs_mutex *_parent, entities_type _entities)\<close>; the member
  \<^verbatim>\<open>_entity\<close> is default constructed.
\<close>

definition construct :: "nat option \<Rightarrow> entities_type \<Rightarrow> world \<Rightarrow> world" where
  "construct p es w =
     w\<lparr>guards := guards w @
          [\<lparr>guard_entity = \<lparr>entity_value = 0, exclusive = False\<rparr>, parent = p, entities = es, hint = 0\<rparr>]\<rparr>"

text \<open>
  \<^verbatim>\<open>entities_guard(shared_fs_mutex *_parent, entity_type entity)\<close>; \<^verbatim>\<open>entities\<close> is the span
  of the one member \<^verbatim>\<open>_entity\<close>, whose address is taken to be that of the guard.
\<close>

definition construct_single :: "nat option \<Rightarrow> entity_type \<Rightarrow> world \<Rightarrow> world" where
  "construct_single p e w =
     w\<lparr>guards := guards w @
          [\<lparr>guard_entity = e, parent = p, entities = Span (Some (length (guards w))) 1, hint = 0\<rparr>]\<rparr>"





text \<open>
  \<^verbatim>\<open>entities_guard &operator=(entities_guard &&o) noexcept\<close>
  \<^verbatim>\<open>{ this->~entities_guard(); new(this) entities_guard(std::move(o)); return *this; }\<close>
  with \<^verbatim>\<open>*this\<close> at address \<open>a\<close> and \<^verbatim>\<open>o\<close> at address \<open>b\<close>: the destructor runs on
  the storage at \<open>a\<close>, then the members at \<open>a\<close> are initialised from those at \<open>b\<close>, as
  they are by then, and the guard at \<open>b\<close> is released.
\<close>

definition move_assign :: "nat \<Rightarrow> nat \<Rightarrow> world \<Rightarrow> world option" where
  "move_assign a b w =
     (if a < length (guards w) \<and> b < length (guards w) then
        (case destructor (guards w ! a) (unlocked w) of
           (g, calls) \<Rightarrow>
             (let gs1 = (guards w)[a := g];
                  src = gs1 ! b;
                  gs2 = gs1[a := \<lparr>guard_entity = guard_entity src, parent = parent src,
                                  entities = entities src, hint = hint src\<rparr>];
                  gs3 = gs2[b := release (gs2 ! b)]
              in Some \<lparr>guards = gs3, unlocked = calls\<rparr>))
      else None)"






text \<open>
  A store used as an example: a guard on a sequence of two entities of mutex 1, a guard
  on its own single entity of mutex 1, and a guard that holds nothing.
\<close>

definition world_example :: world where
  "world_example =
     \<lparr>guards =
        [\<lparr>guard_entity = entity 0 False, parent = Some 1, entities = Span (Some 100) 2, hint = 0\<rparr>,
         \<lparr>guard_entity = entity 77 True, parent = Some 1, entities = Span (Some 1) 1, hint = 0\<rparr>,
         \<lparr>guard_entity = entity 0 False, parent = None, entities = Span None 0, hint = 0\<rparr>],
      unlocked = []\<rparr>"


section \<open>Properties of the post queue\<close>

lemma find_post_found:
  "k \<le> n \<Longrightarrow> n - k < length q \<Longrightarrow>
   find_post (Some n) k q = (None, q[n - k := (q ! (n - k))\<lparr>post_f := None, service := None\<rparr>])"
proof (induction q arbitrary: k)
  case Nil
  then show ?case by simp
next
  case (Cons i rest)
  show ?case
  proof (cases "k = n")
    case True
    then show ?thesis by simp
  next
    case False
    with Cons.prems have lt: "Suc k \<le> n" and len: "n - Suc k < length rest" by auto
    from lt have idx: "n - k = Suc (n - Suc k)" by simp
    from Cons.IH [OF lt len] False show ?thesis
      by (simp add: idx)
  qed
qed

lemma find_post_missing:
  "n < k \<or> length q \<le> n - k \<Longrightarrow> find_post (Some n) k q = (Some n, q)"
proof (induction q arbitrary: k)
  case Nil
  then show ?case by simp
next
  case (Cons i rest)
  from Cons.prems have "n < Suc k \<or> length rest \<le> n - Suc k" by auto
  from Cons.IH [OF this] Cons.prems show ?case by auto
qed

lemma find_post_null: "find_post None k q = (None, q)"
  by (induction q arbitrary: k) auto

lemma pop_consumed_all:
  "(\<forall>i \<in> set q. service i = None) \<Longrightarrow> pop_consumed q = Inl Front_of_empty_deque"
  by (induction q) auto

lemma post_effect:
  "post c s = Inr s' \<Longrightarrow>
     work_queued s' = work_queued s + 1 \<and>
     posts s' = posts s @ [\<lparr>service = Some (this s), post_f = Some c\<rparr>] \<and>
     aiocbsv s' = aiocbsv s \<and> posts_lock s' = False \<and> this s' = this s \<and> threadh s' = threadh s"
  by (auto simp: post_def work_enqueued_def split: if_splits)

lemma post_all_effect:
  "post_all cs s = Inr s' \<Longrightarrow>
     work_queued s' = work_queued s + of_nat (length cs) \<and>
     posts s' = posts s @ map (\<lambda>c. \<lparr>service = Some (this s), post_f = Some c\<rparr>) cs \<and>
     aiocbsv s' = aiocbsv s \<and> this s' = this s \<and> threadh s' = threadh s"
proof (induction cs arbitrary: s)
  case Nil
  then show ?case by simp
next
  case (Cons c cs)
  from Cons.prems obtain s1 where p: "post c s = Inr s1" and r: "post_all cs s1 = Inr s'"
    by (auto split: sum.splits)
  from post_effect [OF p] Cons.IH [OF r] show ?case by simp
qed

lemma pop_consumed_pending:
  "pop_consumed q = Inr q' \<Longrightarrow> filter (\<lambda>i. service i \<noteq> None) q' = filter (\<lambda>i. service i \<noteq> None) q"
  by (induction q) (auto split: if_splits)

lemma pop_consumed_dropWhile:
  "pop_consumed q = Inr q' \<Longrightarrow> q' = dropWhile (\<lambda>i. service i = None) q \<and> q' \<noteq> []"
  by (induction q) (auto split: if_splits)

lemma pop_consumed_fault:
  "pop_consumed q = Inl e \<Longrightarrow> e = Front_of_empty_deque \<and> (\<forall>i \<in> set q. service i = None)"
  by (induction q) (auto split: if_splits)

lemma mark_pending:
  "k < length q \<Longrightarrow> service (q ! k) \<noteq> None \<Longrightarrow>
   Suc (length (filter (\<lambda>i. service i \<noteq> None) (q[k := (q ! k)\<lparr>post_f := None, service := None\<rparr>]))) =
   length (filter (\<lambda>i. service i \<noteq> None) q)"
proof (induction q arbitrary: k)
  case Nil
  then show ?case by simp
next
  case (Cons i rest)
  then show ?case by (cases k) auto
qed

lemma post_done_held_effect:
  assumes "post_done_held (Some k) s = Inr s'"
  shows "k < length (posts s) \<and>
         work_queued s' = work_queued s - 1 \<and>
         posts s' = dropWhile (\<lambda>i. service i = None)
                      ((posts s)[k := (posts s ! k)\<lparr>post_f := None, service := None\<rparr>]) \<and>
         posts s' \<noteq> [] \<and>
         aiocbsv s' = aiocbsv s \<and> posts_lock s' = posts_lock s \<and> this s' = this s \<and> threadh s' = threadh s \<and> need_signal s' = need_signal s"
proof -
  have len: "k < length (posts s)"
  proof (rule ccontr)
    assume "\<not> k < length (posts s)"
    then have "find_post (Some k) 0 (posts s) = (Some k, posts s)"
      by (intro find_post_missing) simp
    with assms show False by (simp add: post_done_held_def)
  qed
  then have f: "find_post (Some k) 0 (posts s) =
      (None, (posts s)[k := (posts s ! k)\<lparr>post_f := None, service := None\<rparr>])"
    using find_post_found [of 0 k "posts s"] by simp
  from assms f show ?thesis
    using len by (auto simp: post_done_held_def work_done_def Let_def split: sum.splits dest!: pop_consumed_dropWhile)
qed

lemma post_done_effect:
  assumes "post_done (Some k) s = Inr s'"
  shows "k < length (posts s) \<and> \<not> posts_lock s \<and> \<not> posts_lock s' \<and>
         work_queued s' = work_queued s - 1 \<and>
         posts s' = dropWhile (\<lambda>i. service i = None)
                      ((posts s)[k := (posts s ! k)\<lparr>post_f := None, service := None\<rparr>]) \<and>
         posts s' \<noteq> [] \<and>
         aiocbsv s' = aiocbsv s \<and> this s' = this s \<and> threadh s' = threadh s \<and> need_signal s' = need_signal s"
proof -
  from assms have nl: "\<not> posts_lock s" by (auto simp: post_done_def split: if_splits)
  with assms obtain s2 where h: "post_done_held (Some k) (s\<lparr>posts_lock := True\<rparr>) = Inr s2"
    and s': "s' = s2\<lparr>posts_lock := False\<rparr>"
    by (auto simp: post_done_def split: sum.splits)
  from post_done_held_effect [OF h] have ne: "posts s2 \<noteq> []" by blast
  from post_done_held_effect [OF h] nl s' ne show ?thesis by auto
qed

lemma pending_dropWhile:
  "filter (\<lambda>i. service i \<noteq> None) (dropWhile (\<lambda>i. service i = None) q) =
   filter (\<lambda>i. service i \<noteq> None) q"
  by (induction q) auto

lemma length_pending_move_out:
  "length (filter (\<lambda>i. service i \<noteq> None) (q[k := (q ! k)\<lparr>post_f := None\<rparr>])) =
   length (filter (\<lambda>i. service i \<noteq> None) q)"
proof (induction q arbitrary: k)
  case Nil
  then show ?case by simp
next
  case (Cons i rest)
  then show ?case by (cases k) auto
qed

lemma dispatch_effect:
  assumes k: "k < length (posts s)" and p: "service (posts s ! k) \<noteq> None"
    and d: "dispatch k s = Inr s'"
  shows "\<exists>n cs. post_f (posts s ! k) = Some (Callable n cs) \<and>
           work_queued s' = work_queued s + of_nat (length cs) - 1 \<and>
           Suc (pending s') = pending s + length cs \<and>
           aiocbsv s' = aiocbsv s \<and> this s' = this s \<and> threadh s' = threadh s"
proof -
  let ?P = "\<lambda>i. service i \<noteq> None"
  let ?s1 = "s\<lparr>posts := (posts s)[k := (posts s ! k)\<lparr>post_f := None\<rparr>]\<rparr>"
  from d k obtain c where c: "post_f (posts s ! k) = Some c"
    by (auto simp: dispatch_def split: if_splits option.splits)
  obtain n cs where ncs: "c = Callable n cs" by (cases c)
  from d k c ncs obtain s2 where i: "post_all cs ?s1 = Inr s2" and pd: "post_done (Some k) s2 = Inr s'"
    by (auto simp: dispatch_def split: if_splits sum.splits)
  note e1 = post_all_effect [OF i]
  note e2 = post_done_effect [OF pd]
  from e1 have q2: "posts s2 = (posts s)[k := (posts s ! k)\<lparr>post_f := None\<rparr>] @
      map (\<lambda>c. \<lparr>service = Some (this s), post_f = Some c\<rparr>) cs" by simp
  from k q2 have k2: "k < length (posts s2)" by simp
  from k q2 p have p2: "service (posts s2 ! k) \<noteq> None" by (simp add: nth_append)
  from e2 have "posts s' = dropWhile (\<lambda>i. service i = None)
      ((posts s2)[k := (posts s2 ! k)\<lparr>post_f := None, service := None\<rparr>])" by blast
  then have "pending s' = length (filter ?P ((posts s2)[k := (posts s2 ! k)\<lparr>post_f := None, service := None\<rparr>]))"
    unfolding pending_def by (simp only: pending_dropWhile)
  then have "Suc (pending s') = length (filter ?P (posts s2))"
    using mark_pending [OF k2 p2] by simp
  also have "\<dots> = pending s + length cs"
    by (simp add: q2 pending_def length_pending_move_out filter_map comp_def del: not_None_eq)
  finally have pend: "Suc (pending s') = pending s + length cs" .
  from e1 e2 have "work_queued s' = work_queued s + of_nat (length cs) - 1" by simp
  with c ncs pend e1 e2 show ?thesis by simp
qed

lemma accounted_event:
  assumes a: "accounted s" and e: "apply_event e s = Inr s'"
  shows "accounted s'"
proof (cases e)
  case (Post c)
  with e have "post c s = Inr s'" by simp
  from post_effect [OF this] a show ?thesis
    by (simp add: accounted_def pending_def)
next
  case (Submit r)
  with e a show ?thesis
    by (auto simp: accounted_def pending_def submit_def work_enqueued_def Let_def)
next
  case (Completion r)
  show ?thesis
  proof (cases "r \<in> set (aiocbsv s)")
    case True
    then have "0 < length (aiocbsv s)" by (rule length_pos_if_in_set)
    then have "pending s + length (aiocbsv s) = Suc (pending s + (length (aiocbsv s) - 1))" by simp
    with True Completion e a show ?thesis
      by (auto simp: accounted_def pending_def complete_def work_done_def length_remove1 simp del: of_nat_add)
  next
    case False
    with Completion e a show ?thesis by simp
  qed
next
  case (Dispatch k)
  show ?thesis
  proof (cases "k < length (posts s) \<and> service (posts s ! k) \<noteq> None")
    case True
    with Dispatch e have d: "dispatch k s = Inr s'" by simp
    from True have k: "k < length (posts s)" and p: "service (posts s ! k) \<noteq> None" by simp_all
    from dispatch_effect [OF k p d] obtain n cs where
      "post_f (posts s ! k) = Some (Callable n cs)" and
      w: "work_queued s' = work_queued s + of_nat (length cs) - 1"
      and pe: "Suc (pending s') = pending s + length cs"
      and io: "aiocbsv s' = aiocbsv s" by blast
    from pe have eq: "pending s + length (aiocbsv s) + length cs = Suc (pending s' + length (aiocbsv s))"
      by simp
    have "work_queued s' = of_nat (pending s + length (aiocbsv s)) + of_nat (length cs) - 1"
      using w a by (simp add: accounted_def del: of_nat_add)
    also have "\<dots> = of_nat (pending s + length (aiocbsv s) + length cs) - 1"
      by (simp only: of_nat_add)
    also have "\<dots> = of_nat (Suc (pending s' + length (aiocbsv s))) - 1"
      by (simp only: eq)
    also have "\<dots> = of_nat (pending s' + length (aiocbsv s'))"
      by (simp add: io)
    finally show ?thesis by (simp only: accounted_def)
  next
    case False
    with Dispatch e a show ?thesis by auto
  qed
qed

lemma accounted_run:
  "accounted s \<Longrightarrow> run_events evs s = Inr s' \<Longrightarrow> accounted s'"
proof (induction evs arbitrary: s)
  case Nil
  then show ?case by simp
next
  case (Cons e es)
  from Cons.prems obtain s1 where e: "apply_event e s = Inr s1" and r: "run_events es s1 = Inr s'"
    by (auto split: sum.splits)
  from accounted_event [OF Cons.prems(1) e] r show ?case by (rule Cons.IH)
qed

lemma accounted_unat:
  "accounted s \<Longrightarrow> pending s + length (aiocbsv s) < 2 ^ 64 \<Longrightarrow>
   unat (work_queued s) = pending s + length (aiocbsv s)"
  by (simp add: accounted_def unat_of_nat del: of_nat_add)

lemma event_delta:
  assumes e: "apply_event e s = Inr s'"
  shows "work_queued s' = work_queued s + of_nat (enqueued e s) - of_nat (retired e s)"
proof (cases e)
  case (Post c)
  with e have "post c s = Inr s'" by simp
  from post_effect [OF this] Post show ?thesis by simp
next
  case (Submit r)
  with e show ?thesis by (auto simp: submit_def work_enqueued_def Let_def)
next
  case (Completion r)
  with e show ?thesis by (auto simp: complete_def work_done_def split: if_splits)
next
  case (Dispatch k)
  show ?thesis
  proof (cases "k < length (posts s) \<and> service (posts s ! k) \<noteq> None")
    case True
    then have k: "k < length (posts s)" and p: "service (posts s ! k) \<noteq> None" by simp_all
    from True Dispatch e have d: "dispatch k s = Inr s'" by simp
    from dispatch_effect [OF k p d] obtain n cs where
      "post_f (posts s ! k) = Some (Callable n cs)"
      "work_queued s' = work_queued s + of_nat (length cs) - 1" by blast
    with True Dispatch show ?thesis by simp
  next
    case False
    with Dispatch e show ?thesis by auto
  qed
qed

lemma accounted_ctor: "accounted (io_service_ctor a t)"
  by (simp add: accounted_def pending_def io_service_ctor_def)

lemma accounted_mod:
  "accounted s \<Longrightarrow> unat (work_queued s) = (pending s + length (aiocbsv s)) mod 2 ^ 64"
  by (simp add: accounted_def unat_of_nat del: of_nat_add)

lemma run_steps_append:
  "run_steps (xs @ ys) s = (case run_steps xs s of Inl e \<Rightarrow> Inl e | Inr s' \<Rightarrow> run_steps ys s')"
  by (induction xs arbitrary: s) (auto split: sum.splits)

lemma run_pop_steps:
  "posts s = q \<Longrightarrow>
   run_steps (pop_steps q) s =
     (case pop_consumed q of Inl e \<Rightarrow> Inl e | Inr q' \<Rightarrow> Inr (s\<lparr>posts := q'\<rparr>))"
proof (induction q arbitrary: s)
  case Nil
  then show ?case by simp
next
  case (Cons i rest)
  show ?case
  proof (cases "service i = None")
    case True
    have "posts (s\<lparr>posts := rest\<rparr>) = rest" by simp
    from Cons.IH [OF this] True Cons.prems show ?thesis by (simp split: sum.splits)
  next
    case False
    with Cons.prems show ?thesis by auto
  qed
qed

lemma run_post_done_held_steps:
  "run_steps (post_done_held_steps pi s) s = post_done_held pi s"
proof (cases pi)
  case None
  then show ?thesis
    by (simp add: post_done_held_steps_def post_done_held_def find_post_null run_pop_steps work_done_def
             split: sum.splits)
next
  case (Some k)
  show ?thesis
  proof (cases "k < length (posts s)")
    case True
    then have f: "find_post (Some k) 0 (posts s) =
        (None, (posts s)[k := (posts s ! k)\<lparr>post_f := None, service := None\<rparr>])"
      using find_post_found [of 0 k "posts s"] by simp
    with True Some show ?thesis
      by (simp add: post_done_held_steps_def post_done_held_def run_pop_steps work_done_def
             split: sum.splits)
  next
    case False
    then have "find_post (Some k) 0 (posts s) = (Some k, posts s)"
      by (intro find_post_missing) simp
    with Some show ?thesis
      by (simp add: post_done_held_steps_def post_done_held_def)
  qed
qed

lemma run_post_done_steps:
  "run_steps (post_done_steps pi s) s = post_done pi s"
  by (simp add: post_done_steps_def post_done_def run_steps_append run_post_done_held_steps
           split: sum.splits)

lemma pop_steps_shape:
  "pop_steps q = concat (replicate (length (takeWhile (\<lambda>i. service i = None) q)) [Read_front, Pop_front])
                 @ [Read_front]"
  by (induction q) auto

text \<open>
  \<^verbatim>\<open>_post_done\<close> on the first entry of the example service pops it together with the
  consumed entry behind it.
\<close>

lemma post_done_pops_consumed_prefix: "post_done (Some 0) svc_busy = Inr svc_busy_done"
  by code_simp

lemma pop_consumed_eq:
  "pop_consumed q =
     (if length (takeWhile (\<lambda>i. service i = None) q) = length q then Inl Front_of_empty_deque
      else Inr (drop (length (takeWhile (\<lambda>i. service i = None) q)) q))"
  by (induction q) auto

lemma run_pops:
  "posts s = q \<Longrightarrow>
   run_steps (concat (replicate (length (takeWhile (\<lambda>i. service i = None) q)) [Read_front, Pop_front])) s =
     Inr (s\<lparr>posts := drop (length (takeWhile (\<lambda>i. service i = None) q)) q\<rparr>)"
proof (induction q arbitrary: s)
  case Nil
  then show ?case by simp
next
  case (Cons i rest)
  show ?case
  proof (cases "service i = None")
    case True
    have "posts (s\<lparr>posts := rest\<rparr>) = rest" by simp
    from Cons.IH [OF this] True Cons.prems show ?thesis by simp
  next
    case False
    with Cons.prems show ?thesis by auto
  qed
qed

text \<open>A dispatch that returns leaves a post pending: no dispatch that returns drains the queue.\<close>

lemma dispatch_leaves_pending:
  assumes k: "k < length (posts s)" and d: "dispatch k s = Inr s'"
  shows "0 < pending s'"
proof -
  from d k obtain s2 where pd: "post_done (Some k) s2 = Inr s'"
    by (auto simp: dispatch_def split: if_splits option.splits sum.splits)
  let ?q = "(posts s2)[k := (posts s2 ! k)\<lparr>post_f := None, service := None\<rparr>]"
  from post_done_effect [OF pd] have q: "posts s' = dropWhile (\<lambda>i. service i = None) ?q"
    and ne: "posts s' \<noteq> []" by blast+
  from ne q have "service (hd (posts s')) \<noteq> None"
    using hd_dropWhile [of "\<lambda>i. service i = None" ?q] by simp
  with ne have "hd (posts s') \<in> set (filter (\<lambda>i. service i \<noteq> None) (posts s'))" by simp
  then show ?thesis unfolding pending_def by (rule length_pos_if_in_set)
qed

lemma released_update:
  "list_all released_if_consumed q \<Longrightarrow> released_if_consumed v \<Longrightarrow>
   list_all released_if_consumed (q[k := v])"
  using set_update_subset_insert [of q k v] by (auto simp: list_all_iff)

lemma released_dropWhile:
  "list_all released_if_consumed q \<Longrightarrow> list_all released_if_consumed (dropWhile P q)"
  by (auto simp: list_all_iff dest: set_dropWhileD)

lemma released_event:
  assumes inv: "list_all released_if_consumed (posts s)" and e: "apply_event e s = Inr s'"
  shows "list_all released_if_consumed (posts s')"
proof (cases e)
  case (Post c)
  with e have "post c s = Inr s'" by simp
  from post_effect [OF this] inv show ?thesis by (simp add: released_if_consumed_def)
next
  case (Submit r)
  with e inv show ?thesis by (auto simp: submit_def work_enqueued_def Let_def)
next
  case (Completion r)
  with e inv show ?thesis by (auto simp: complete_def work_done_def split: if_splits)
next
  case (Dispatch k)
  show ?thesis
  proof (cases "k < length (posts s) \<and> service (posts s ! k) \<noteq> None")
    case True
    with Dispatch e have d: "dispatch k s = Inr s'" by simp
    let ?s1 = "s\<lparr>posts := (posts s)[k := (posts s ! k)\<lparr>post_f := None\<rparr>]\<rparr>"
    from d True obtain c where c: "post_f (posts s ! k) = Some c"
      by (auto simp: dispatch_def split: if_splits option.splits)
    obtain n cs where ncs: "c = Callable n cs" by (cases c)
    from d True c ncs obtain s2 where i: "post_all cs ?s1 = Inr s2"
      and pd: "post_done (Some k) s2 = Inr s'"
      by (auto simp: dispatch_def split: if_splits sum.splits)
    have "list_all released_if_consumed (posts ?s1)"
      using inv by (simp add: released_update released_if_consumed_def)
    with post_all_effect [OF i] have "list_all released_if_consumed (posts s2)"
      by (auto simp: released_if_consumed_def list_all_iff)
    then have "list_all released_if_consumed
        ((posts s2)[k := (posts s2 ! k)\<lparr>post_f := None, service := None\<rparr>])"
      by (simp add: released_update released_if_consumed_def)
    then have "list_all released_if_consumed (dropWhile (\<lambda>i. service i = None)
        ((posts s2)[k := (posts s2 ! k)\<lparr>post_f := None, service := None\<rparr>]))"
      by (rule released_dropWhile)
    moreover from post_done_effect [OF pd] have "posts s' = dropWhile (\<lambda>i. service i = None)
        ((posts s2)[k := (posts s2 ! k)\<lparr>post_f := None, service := None\<rparr>])" by blast
    ultimately show ?thesis by simp
  next
    case False
    with Dispatch e inv show ?thesis by auto
  qed
qed

lemma released_run:
  "list_all released_if_consumed (posts s) \<Longrightarrow> run_events evs s = Inr s' \<Longrightarrow>
   list_all released_if_consumed (posts s')"
proof (induction evs arbitrary: s)
  case Nil
  then show ?case by simp
next
  case (Cons e es)
  from Cons.prems obtain s1 where e: "apply_event e s = Inr s1" and r: "run_events es s1 = Inr s'"
    by (auto split: sum.splits)
  from released_event [OF Cons.prems(1) e] r show ?case by (rule Cons.IH)
qed

lemma pop_steps_no_decrement: "count_list (pop_steps q) Decrement_work = 0"
  by (induction q) auto

lemma post_done_decrements_once:
  "count_list (post_done_steps pi s) Decrement_work =
     (if fst (find_post pi 0 (posts s)) = None then 1 else 0)"
  by (cases "find_post pi 0 (posts s)"; cases pi)
     (auto simp: post_done_steps_def post_done_held_steps_def pop_steps_no_decrement)

text \<open>
  The work counter in the states that posts, submissions, completions and dispatches
  reach from a freshly constructed service: it equals the number of posts not yet
  dispatched plus the number of requests in flight (as long as that number fits
  \<^verbatim>\<open>size_type\<close>), every further operation changes it by the units of work it adds minus
  the units it retires, and the state it leaves is accounted for again.
\<close>

lemma work_counter_accounted:
  assumes run: "run_events evs (io_service_ctor a t) = Inr s"
    and fits: "pending s + length (aiocbsv s) < 2 ^ 64"
    and step: "apply_event e s = Inr s'"
  shows "unat (work_queued s) = pending s + length (aiocbsv s) \<and>
         work_queued s' = work_queued s + of_nat (enqueued e s) - of_nat (retired e s) \<and>
         unat (work_queued s') = (pending s' + length (aiocbsv s')) mod 2 ^ 64"
proof -
  from accounted_run [OF accounted_ctor run] have a: "accounted s" .
  from accounted_event [OF a step] have a': "accounted s'" .
  from accounted_unat [OF a fits] event_delta [OF step] accounted_mod [OF a']
  show ?thesis by blast
qed

text \<open>A request is submitted, a callable is posted, and the post is dispatched.\<close>

lemma last_dispatch_by_events:
  "run_events [Submit 5, Post (Callable 7 []), Dispatch 0] (io_service_ctor 0 1) =
     Inl Front_of_empty_deque"
  by code_simp

section \<open>Claims about the service\<close>

text \<open>
  C1 (work accounting). After every finite sequence of posts, submissions, completions
  and dispatches the work counter is to equal the posts pending plus the requests in
  flight. The lemmas above give this for every sequence that runs to its end, and a
  sequence that does not: one in which a dispatch retires the last pending post. On a service with one request in flight and one post, accounted for by a counter
  of 2, \<^verbatim>\<open>_post_done\<close> on the post releases and nulls the entry, decrements the counter to
  1 and pops the entry, all with the lock held; it then evaluates \<^verbatim>\<open>front()\<close> on the
  empty deque, so the call has no defined result and no state with the counter at 1 is
  handed back.
\<close>

theorem work_counter_last_dispatch_undefined:
  "unat (work_queued svc_last_post) = pending svc_last_post + length (aiocbsv svc_last_post) \<and>
   post_done_steps (Some 0) svc_last_post =
     [Lock_posts, Reset_callable 0, Null_service 0, Decrement_work,
      Read_front, Pop_front, Read_front, Unlock_posts] \<and>
   run_steps [Lock_posts, Reset_callable 0, Null_service 0, Decrement_work, Read_front, Pop_front]
     svc_last_post =
     Inr \<lparr>this = 0, threadh = 1, posts_lock = True, posts = [], work_queued = 1,
          aiocbsv = [5], need_signal = False\<rparr> \<and>
   run_steps (post_done_steps (Some 0) svc_last_post) svc_last_post = Inl Front_of_empty_deque \<and>
   post_done (Some 0) svc_last_post = Inl Front_of_empty_deque"
  by code_simp

text \<open>
  C2 (thread affinity). \<^verbatim>\<open>run_until\<close> called from a thread other than the owning one
  returns not-supported, does nothing, and leaves the service as it was.
\<close>

theorem run_until_foreign_thread:
  "caller \<noteq> threadh s \<Longrightarrow> run_until d caller k s = ([], Returns (Inl operation_not_supported) s)"
  by (simp add: run_until_def)

theorem run_until_foreign_thread_witness:
  "(2 :: nat) \<noteq> threadh svc_busy \<and>
   run_until (Deadline True 0 50000000) 2 (Finished [5]) svc_busy =
     ([], Returns (Inl operation_not_supported) svc_busy)"
proof -
  have h: "(2 :: nat) \<noteq> threadh svc_busy" by (simp add: svc_busy_def)
  from run_until_foreign_thread [OF h] h show ?thesis by blast
qed

text \<open>
  The run loop on a service with no post queued, the tests being made in the order of
  the spec's list. With a well-formed deadline and a work counter of zero the owner gets
  \<^verbatim>\<open>Ok(false)\<close> without waiting. Timed-out is returned exactly when the owner calls with
  a well-formed finite deadline while the counter is not zero, and the backend wait ends
  with none of the requests in flight completed.
\<close>

lemma run_until_no_work:
  assumes "caller = threadh s" and "\<not> malformed d" and "work_queued s = 0"
  shows "run_until d caller k s = ([], Returns (Inr False) s)"
  using assms by (simp add: run_until_def)

lemma wait_one_Timeout:
  "(wait_one d k s = Timeout) = (d \<noteq> Never \<and> (\<exists>rs. k = Finished rs \<and> find (\<lambda>r. r \<in> set rs) (aiocbsv s) = None))"
  by (auto simp: wait_one_def split: kernel.splits option.splits)

lemma run_until_timed_out:
  "(\<exists>acts s'. run_until d caller k s = (acts, Returns (Inl timed_out) s')) =
   (caller = threadh s \<and> \<not> malformed d \<and> d \<noteq> Never \<and> work_queued s \<noteq> 0 \<and> posts s = [] \<and>
    (\<exists>rs. k = Finished rs \<and> find (\<lambda>r. r \<in> set rs) (aiocbsv s) = None))"
proof -
  have w: "wait_one d k (s\<lparr>need_signal := True\<rparr>) = wait_one d k s"
    by (simp add: wait_one_def split: kernel.splits)
  show ?thesis
    using wait_one_Timeout [of d k s]
    by (auto simp: run_until_def w split: sum.splits wait_result.splits)
qed

lemma run_until_dispatches_front:
  assumes "caller = threadh s" and "\<not> malformed d" and "work_queued s \<noteq> 0"
    and "posts s = i # rest" and "post_f i = Some c" and "dispatch 0 s = Inr s'"
  shows "run_until d caller k s = ([Invoke c], Returns (Inr True) s')"
  using assms by (simp add: run_until_def)

text \<open>
  C5 (one unit of work per tick). With a post pending, \<^verbatim>\<open>run_until\<close> is to dispatch
  exactly one post and return \<^verbatim>\<open>Ok(true)\<close>. The lemma above gives this whenever the
  dispatch completes. When the dispatched post is the only entry of the queue it does
  not: the callable is invoked, and \<^verbatim>\<open>__post_done\<close> then pops the entry and reads
  \<^verbatim>\<open>front()\<close> of the empty deque.
\<close>

theorem run_until_single_post_undefined:
  "post (Callable 7 []) svc_idle = Inr svc_one_post \<and>
   run_until Never 1 (Finished []) svc_one_post =
     ([Invoke (Callable 7 [])], Undefined Front_of_empty_deque)"
  by code_simp

lemma dispatch_front_queue:
  assumes q: "posts s = i # rest" and c: "post_f i = Some (Callable n cs)"
    and d: "dispatch 0 s = Inr s'"
  shows "posts s' = dropWhile (\<lambda>i. service i = None)
                      (rest @ map (\<lambda>c. \<lparr>service = Some (this s), post_f = Some c\<rparr>) cs)"
proof -
  let ?s1 = "s\<lparr>posts := (posts s)[0 := (posts s ! 0)\<lparr>post_f := None\<rparr>]\<rparr>"
  from d q c obtain s2 where i: "post_all cs ?s1 = Inr s2" and pd: "post_done (Some 0) s2 = Inr s'"
    by (auto simp: dispatch_def split: if_splits sum.splits)
  from post_all_effect [OF i] q have q2: "posts s2 =
      i\<lparr>post_f := None\<rparr> # rest @ map (\<lambda>c. \<lparr>service = Some (this s), post_f = Some c\<rparr>) cs"
    by simp
  from post_done_effect [OF pd] have "posts s' = dropWhile (\<lambda>i. service i = None)
      ((posts s2)[0 := (posts s2 ! 0)\<lparr>post_f := None, service := None\<rparr>])" by blast
  then show ?thesis by (simp add: q2)
qed

text \<open>
  C6 (posts run exactly once, in order). The queue is first in, first out: by the lemma
  above a dispatch that completes removes the front entry, keeps the others in order and
  has the callables posted meanwhile behind them. But a dispatch that empties the queue
  does not complete. A producer posts a callable, the owner runs, a second producer posts
  another callable, the owner runs again: the first run invokes the first callable and
  ends in the undefined \<^verbatim>\<open>front()\<close> of the emptied deque, so nothing guarantees that the
  second callable is ever invoked.
\<close>

theorem producers_schedule_undefined:
  "run_schedule [Producer 1 (Callable 1 []), Owner_runs, Producer 2 (Callable 2 []), Owner_runs]
     (Finished []) (io_service_ctor 0 9) =
   [([Invoke (Callable 1 [])], Undefined Front_of_empty_deque)]"
  by code_simp

text \<open>
  C7 (consuming an entry). Every call of \<^verbatim>\<open>_post_done\<close> on an entry of the queue, at
  position \<open>k\<close>, executes these statements in this order, as far as it gets: take the
  post lock, release the callable of the entry, null its service pointer, decrement the
  work counter, pop as many entries as the front of the queue has consumed ones, testing
  the front before each pop and once more after the last, and drop the lock. So when the
  pointer is nulled the lock is held and the callable has been released; the entries
  popped are a prefix of the queue and all consumed, and the entry behind them, if there
  is one, is not consumed. This holds whether the call returns or not: with the lock
  taken already it never gets to the entry, and with every entry consumed it pops them
  all and ends in \<^verbatim>\<open>front()\<close> of the empty deque; otherwise it returns the queue without
  its consumed prefix.
\<close>

theorem consumed_under_lock:
  assumes k: "k < length (posts s)"
  shows
    "(let q = (posts s)[k := (posts s ! k)\<lparr>post_f := None, service := None\<rparr>];
          n = length (takeWhile (\<lambda>i. service i = None) q);
          pops = concat (replicate n [Read_front, Pop_front])
      in run_steps (post_done_steps (Some k) s) s = post_done (Some k) s \<and>
         post_done_steps (Some k) s =
           [Lock_posts, Reset_callable k, Null_service k, Decrement_work]
           @ pops @ [Read_front, Unlock_posts] \<and>
         run_steps [Lock_posts, Reset_callable k] s =
           (if posts_lock s then Inl Deadlock
            else Inr (s\<lparr>posts_lock := True,
                        posts := (posts s)[k := (posts s ! k)\<lparr>post_f := None\<rparr>]\<rparr>)) \<and>
         run_steps ([Lock_posts, Reset_callable k, Null_service k, Decrement_work] @ pops) s =
           (if posts_lock s then Inl Deadlock
            else Inr (s\<lparr>posts_lock := True, posts := drop n q,
                        work_queued := work_queued s - 1\<rparr>)) \<and>
         post_done (Some k) s =
           (if posts_lock s then Inl Deadlock
            else if n = length q then Inl Front_of_empty_deque
            else Inr (s\<lparr>posts_lock := False, posts := drop n q,
                        work_queued := work_queued s - 1\<rparr>)) \<and>
         list_all (\<lambda>i. service i = None) (take n q) \<and>
         list_all (\<lambda>i. service i \<noteq> None) (take 1 (drop n q)))"
proof -
  let ?P = "\<lambda>i. service i = None"
  let ?q = "(posts s)[k := (posts s ! k)\<lparr>post_f := None, service := None\<rparr>]"
  let ?n = "length (takeWhile ?P ?q)"
  let ?pops = "concat (replicate ?n [Read_front, Pop_front])"
  have f: "find_post (Some k) 0 (posts s) = (None, ?q)"
    using k find_post_found [of 0 k "posts s"] by simp
  have 1: "run_steps (post_done_steps (Some k) s) s = post_done (Some k) s"
    by (rule run_post_done_steps)
  have 2: "post_done_steps (Some k) s =
           [Lock_posts, Reset_callable k, Null_service k, Decrement_work]
           @ ?pops @ [Read_front, Unlock_posts]"
    using f by (simp add: post_done_steps_def post_done_held_steps_def pop_steps_shape)
  have 3: "run_steps [Lock_posts, Reset_callable k] s =
           (if posts_lock s then Inl Deadlock
            else Inr (s\<lparr>posts_lock := True,
                        posts := (posts s)[k := (posts s ! k)\<lparr>post_f := None\<rparr>]\<rparr>))"
    by simp
  let ?s4 = "s\<lparr>posts_lock := True, posts := ?q, work_queued := work_queued s - 1\<rparr>"
  have pre: "\<not> posts_lock s \<Longrightarrow>
      run_steps [Lock_posts, Reset_callable k, Null_service k, Decrement_work] s = Inr ?s4"
    using k by (simp add: work_done_def)
  have "posts ?s4 = ?q" by simp
  from run_pops [OF this] have pops: "run_steps ?pops ?s4 = Inr (?s4\<lparr>posts := drop ?n ?q\<rparr>)" .
  have 4: "run_steps ([Lock_posts, Reset_callable k, Null_service k, Decrement_work] @ ?pops) s =
           (if posts_lock s then Inl Deadlock
            else Inr (s\<lparr>posts_lock := True, posts := drop ?n ?q,
                        work_queued := work_queued s - 1\<rparr>))"
  proof (cases "posts_lock s")
    case True
    then show ?thesis by simp
  next
    case False
    from pre [OF False] pops False show ?thesis
      by (simp only: run_steps_append) simp
  qed
  have 5: "post_done (Some k) s =
           (if posts_lock s then Inl Deadlock
            else if ?n = length ?q then Inl Front_of_empty_deque
            else Inr (s\<lparr>posts_lock := False, posts := drop ?n ?q,
                        work_queued := work_queued s - 1\<rparr>))"
    using f pop_consumed_eq [of ?q]
    by (simp add: post_done_def post_done_held_def work_done_def)
  have 6: "list_all ?P (take ?n ?q)"
    by (simp add: takeWhile_eq_take [symmetric] list_all_iff) (auto dest: set_takeWhileD)
  have 7: "list_all (\<lambda>i. service i \<noteq> None) (take 1 (drop ?n ?q))"
  proof -
    have d: "drop ?n ?q = dropWhile ?P ?q" by (simp only: dropWhile_eq_drop)
    show ?thesis
    proof (cases "dropWhile ?P ?q")
      case Nil
      then show ?thesis by (simp only: d) simp
    next
      case (Cons i rest)
      with hd_dropWhile [of ?P ?q] have "service i \<noteq> None" by simp
      with Cons show ?thesis by (simp only: d) simp
    qed
  qed
  from 1 2 3 4 5 6 7 show ?thesis by (simp only: Let_def)
qed

theorem consumed_under_lock_witness:
  "0 < length (posts svc_one_post) \<and>
   (let q = (posts svc_one_post)[0 := (posts svc_one_post ! 0)\<lparr>post_f := None, service := None\<rparr>];
        n = length (takeWhile (\<lambda>i. service i = None) q);
        pops = concat (replicate n [Read_front, Pop_front])
    in run_steps (post_done_steps (Some 0) svc_one_post) svc_one_post = post_done (Some 0) svc_one_post \<and>
       post_done_steps (Some 0) svc_one_post =
         [Lock_posts, Reset_callable 0, Null_service 0, Decrement_work]
         @ pops @ [Read_front, Unlock_posts] \<and>
       run_steps [Lock_posts, Reset_callable 0] svc_one_post =
         (if posts_lock svc_one_post then Inl Deadlock
          else Inr (svc_one_post\<lparr>posts_lock := True,
                      posts := (posts svc_one_post)[0 := (posts svc_one_post ! 0)\<lparr>post_f := None\<rparr>]\<rparr>)) \<and>
       run_steps ([Lock_posts, Reset_callable 0, Null_service 0, Decrement_work] @ pops) svc_one_post =
         (if posts_lock svc_one_post then Inl Deadlock
          else Inr (svc_one_post\<lparr>posts_lock := True, posts := drop n q,
                      work_queued := work_queued svc_one_post - 1\<rparr>)) \<and>
       post_done (Some 0) svc_one_post =
         (if posts_lock svc_one_post then Inl Deadlock
          else if n = length q then Inl Front_of_empty_deque
          else Inr (svc_one_post\<lparr>posts_lock := False, posts := drop n q,
                      work_queued := work_queued svc_one_post - 1\<rparr>)) \<and>
       list_all (\<lambda>i. service i = None) (take n q) \<and>
       list_all (\<lambda>i. service i \<noteq> None) (take 1 (drop n q)))"
proof -
  have k: "0 < length (posts svc_one_post)" by (simp add: svc_one_post_def)
  from consumed_under_lock [OF k] k show ?thesis by blast
qed

lemma post_done_held_all_consumed:
  assumes k: "k < length (posts s)"
    and rest: "\<forall>j < length (posts s). j \<noteq> k \<longrightarrow> service (posts s ! j) = None"
  shows "post_done_held (Some k) s = Inl Front_of_empty_deque"
proof -
  let ?q = "(posts s)[k := (posts s ! k)\<lparr>post_f := None, service := None\<rparr>]"
  from k have f: "find_post (Some k) 0 (posts s) = (None, ?q)"
    using find_post_found [of 0 k "posts s"] by simp
  have "\<forall>i \<in> set ?q. service i = None"
  proof
    fix i assume "i \<in> set ?q"
    then obtain j where j: "j < length ?q" and i: "i = ?q ! j"
      by (auto simp: in_set_conv_nth)
    show "service i = None"
    proof (cases "j = k")
      case True
      with j i show ?thesis by simp
    next
      case False
      with j i rest show ?thesis by simp
    qed
  qed
  then have "pop_consumed ?q = Inl Front_of_empty_deque" by (rule pop_consumed_all)
  with f show ?thesis by (simp add: post_done_held_def work_done_def)
qed

text \<open>
  C8 (the compaction loop). \<^verbatim>\<open>__post_done\<close> on the last remaining entry of the queue
  marks it consumed, pops it, and evaluates \<^verbatim>\<open>_posts.front()\<close> on the empty deque; by
  the lemma above the same happens whenever every other entry has been consumed before.
\<close>

theorem post_done_last_entry_front_of_empty:
  "post_done_held (Some 0) svc_one_post = Inl Front_of_empty_deque \<and>
   post_done (Some 0) svc_one_post = Inl Front_of_empty_deque"
  by code_simp

section \<open>Properties of the guard\<close>

text \<open>The example store is what the two constructors build.\<close>

lemma world_example_built:
  "world_example =
     construct None (Span None 0)
       (construct_single (Some 1) (entity 77 True)
         (construct (Some 1) (Span (Some 100) 2) \<lparr>guards = [], unlocked = []\<rparr>))"
  by (simp add: world_example_def construct_def construct_single_def entity_def)





lemma guard_copy:
  "\<lparr>guard_entity = guard_entity g, parent = parent g, entities = entities g, hint = hint g\<rparr> = (g :: entities_guard)"
  by simp









lemma move_assign_self:
  assumes "a < length (guards w)"
  shows "move_assign a a w =
           Some \<lparr>guards = (guards w)[a := release (guards w ! a)],
                 unlocked = snd (destructor (guards w ! a) (unlocked w))\<rparr>"
  using assms
  by (auto simp: move_assign_def Let_def destructor_def unlock_def release_def guard_copy
           split: option.splits prod.splits)

section \<open>Claims about the guard\<close>




section \<open>Claims about the hexadecimal conversion\<close>

lemma nibble_cases:
  fixes y :: byte
  assumes "y \<le> 15"
  shows "y \<in> {0, 1, 2, 3, 4, 5, 6, 7, 8, 9, 10, 11, 12, 13, 14, 15}"
proof -
  from assms have "unat y \<le> 15" by (simp add: word_le_nat_alt)
  then have "unat y = 0 \<or> unat y = 1 \<or> unat y = 2 \<or> unat y = 3 \<or> unat y = 4 \<or> unat y = 5 \<or>
    unat y = 6 \<or> unat y = 7 \<or> unat y = 8 \<or> unat y = 9 \<or> unat y = 10 \<or> unat y = 11 \<or>
    unat y = 12 \<or> unat y = 13 \<or> unat y = 14 \<or> unat y = 15" by arith
  then show ?thesis by (simp add: word_unat_eq_iff)
qed

lemma fromhex_digit:
  fixes y :: byte
  assumes "y \<le> 15"
  shows "fromhex v (to_hex_table ! unat y) = (y, v)"
  using nibble_cases [OF assms]
  by (auto simp: fromhex_def to_hex_table_def fromhex_table_def)

lemma fromhex_lo_digit: "fromhex v (lo_digit x) = (x AND 15, v)"
  unfolding lo_digit_def by (rule fromhex_digit) (rule word_and_le1)

lemma fromhex_hi_digit: "fromhex v (hi_digit x) = (drop_bit 4 x AND 15, v)"
  unfolding hi_digit_def by (rule fromhex_digit) (rule word_and_le1)

lemma combine_digits: "combine (drop_bit 4 x AND 15) (x AND 15) = x"
proof -
  have m: "(15 :: byte) = mask 4" by (simp add: mask_eq_exp_minus_1)
  show ?thesis
    unfolding combine_def m
    by (rule bit_word_eqI) (auto simp: bit_simps)
qed

lemma length_hex_of: "length (hex_of b) = 2 * length b"
  by (induction b) (simp_all add: hex_of_def)

lemma hex_of_nth:
  "i < length b \<Longrightarrow> hex_of b ! (2 * i) = lo_digit (b ! i) \<and> hex_of b ! (2 * i + 1) = hi_digit (b ! i)"
proof (induction b arbitrary: i)
  case Nil
  then show ?case by simp
next
  case (Cons x xs)
  show ?case
  proof (cases i)
    case 0
    then show ?thesis by (simp add: hex_of_def)
  next
    case (Suc i')
    with Cons.prems have "i' < length xs" by simp
    from Cons.IH [OF this] Suc show ?thesis by (simp add: hex_of_def)
  qed
qed

lemma unat_twice_plus:
  fixes n :: size_t
  assumes "unat n < 2 ^ 62" and "c < 8"
  shows "unat (n * 2 + of_nat c) = 2 * unat n + c"
proof -
  have "unat (n * 2 + of_nat c) = (unat n * 2 mod 2 ^ 64 + c mod 2 ^ 64) mod 2 ^ 64"
    by (simp add: unat_word_ariths unat_of_nat)
  also have "\<dots> = 2 * unat n + c" using assms by simp
  finally show ?thesis .
qed

lemma unat_plus_small:
  fixes n :: size_t
  assumes "unat n < 2 ^ 62" and "c < 8"
  shows "unat (n + of_nat c) = unat n + c"
proof -
  have "unat (n + of_nat c) = (unat n + c mod 2 ^ 64) mod 2 ^ 64"
    by (simp add: unat_word_ariths unat_of_nat)
  also have "\<dots> = unat n + c" using assms by simp
  finally show ?thesis .
qed

lemma rd_in:
  "unat len = length buf \<Longrightarrow> unat i < length buf \<Longrightarrow> rd buf len i = Some (buf ! unat i)"
  by (simp add: rd_def word_less_nat_alt)

lemma wr_in:
  "unat len = length buf \<Longrightarrow> unat i < length buf \<Longrightarrow> wr buf len i v = Some (buf[unat i := v])"
  by (simp add: wr_def word_less_nat_alt)

lemma to_hex_body_in:
  assumes il: "unat inlen = length inp" and ol: "unat outlen = length out"
    and lo: "length out = 2 * length inp" and small: "length inp < 2 ^ 62"
    and n: "unat n + 2 \<le> length inp"
  shows "to_hex_body out outlen inp inlen n =
           Some (out[2 * unat n + 3 := hi_digit (inp ! (unat n + 1)),
                     2 * unat n + 2 := lo_digit (inp ! (unat n + 1)),
                     2 * unat n + 1 := hi_digit (inp ! unat n),
                     2 * unat n := lo_digit (inp ! unat n)])"
proof -
  from n small have ns: "unat n < 2 ^ 62" by simp
  have u1: "unat (n + 1) = unat n + 1" using unat_plus_small [OF ns, of 1] by simp
  have u3: "unat (n * 2 + 3) = 2 * unat n + 3" using unat_twice_plus [OF ns, of 3] by simp
  have u2: "unat (n * 2 + 2) = 2 * unat n + 2" using unat_twice_plus [OF ns, of 2] by simp
  have u1': "unat (n * 2 + 1) = 2 * unat n + 1" using unat_twice_plus [OF ns, of 1] by simp
  have u0: "unat (n * 2 + 0) = 2 * unat n" using unat_twice_plus [OF ns, of 0] by simp
  have r1: "rd inp inlen (n + 1) = Some (inp ! (unat n + 1))"
    using rd_in [OF il, of "n + 1"] n by (simp add: u1)
  have r0: "rd inp inlen n = Some (inp ! unat n)"
    using rd_in [OF il, of n] n by simp
  have w: "\<And>buf i v. length buf = length out \<Longrightarrow> unat i < length out \<Longrightarrow>
      wr buf outlen i v = Some (buf[unat i := v])"
    using ol by (simp add: wr_in)
  show ?thesis
    unfolding to_hex_body_def
    using n lo by (simp add: r1 r0 w u3 u2 u1' u0 del: add_0_right)
qed


lemma to_hex_loop_exit:
  "\<not> n \<le> inlen - 2 \<Longrightarrow> to_hex_loop out outlen inp inlen n = Inr out"
  by (simp add: to_hex_loop.simps)

lemma to_hex_loop_step:
  "n \<le> inlen - 2 \<Longrightarrow> to_hex_body out outlen inp inlen n = Some out1 \<Longrightarrow>
   to_hex_loop out outlen inp inlen n = to_hex_loop out1 outlen inp inlen (n - 2)"
  by (simp add: to_hex_loop.simps)

lemma to_hex_loop_in:
  assumes il: "unat inlen = length inp" and lo: "length out = 2 * length inp"
    and ol: "unat outlen = length out" and small: "length inp < 2 ^ 62"
    and n: "unat n + 2 \<le> length inp"
  shows "\<exists>out'. to_hex_loop out outlen inp inlen n = Inr out' \<and> length out' = length out \<and>
           (\<forall>j. 2 * (unat n mod 2) \<le> j \<and> j < 2 * unat n + 4 \<longrightarrow> out' ! j = hex_of inp ! j) \<and>
           (\<forall>j. j < 2 * (unat n mod 2) \<or> 2 * unat n + 4 \<le> j \<longrightarrow> out' ! j = out ! j)"
  using lo ol n
proof (induction "unat n" arbitrary: n out rule: less_induct)
  case less
  let ?m = "unat n"
  let ?out1 = "out[2 * ?m + 3 := hi_digit (inp ! (?m + 1)), 2 * ?m + 2 := lo_digit (inp ! (?m + 1)),
                   2 * ?m + 1 := hi_digit (inp ! ?m), 2 * ?m := lo_digit (inp ! ?m)]"
  note lo = less.prems(1) and ol = less.prems(2) and n = less.prems(3)
  from n il have two: "(2 :: size_t) \<le> inlen" by (simp add: word_le_nat_alt)
  then have sub: "unat (inlen - 2) = length inp - 2" using il by (simp add: unat_sub)
  have cond: "n \<le> inlen - 2" using n by (simp add: word_le_nat_alt sub)
  have body: "to_hex_body out outlen inp inlen n = Some ?out1"
    by (rule to_hex_body_in [OF il ol lo small n])
  have step: "to_hex_loop out outlen inp inlen n = to_hex_loop ?out1 outlen inp inlen (n - 2)"
    by (rule to_hex_loop_step [OF cond body])
  have len1: "length ?out1 = 2 * length inp" using lo by simp
  have ol1: "unat outlen = length ?out1" using ol by simp
  have m_in: "?m < length inp" "?m + 1 < length inp" using n by simp_all
  have new: "\<And>j. 2 * ?m \<le> j \<Longrightarrow> j < 2 * ?m + 4 \<Longrightarrow> ?out1 ! j = hex_of inp ! j"
  proof -
    fix j assume "2 * ?m \<le> j" "j < 2 * ?m + 4"
    then consider "j = 2 * ?m" | "j = 2 * ?m + 1" | "j = 2 * ?m + 2" | "j = 2 * ?m + 3" by arith
    then show "?out1 ! j = hex_of inp ! j"
    proof cases
      case 1
      with hex_of_nth [OF m_in(1)] lo n show ?thesis by simp
    next
      case 2
      with hex_of_nth [OF m_in(1)] lo n show ?thesis by simp
    next
      case 3
      have "hex_of inp ! (2 * ?m + 2) = lo_digit (inp ! (?m + 1))"
        using hex_of_nth [OF m_in(2)] by simp
      with 3 lo n show ?thesis by simp
    next
      case 4
      have "hex_of inp ! (2 * ?m + 3) = hi_digit (inp ! (?m + 1))"
        using hex_of_nth [OF m_in(2)] by (simp add: numeral_3_eq_3)
      with 4 lo n show ?thesis by simp
    qed
  qed
  have old: "\<And>j. j < 2 * ?m \<or> 2 * ?m + 4 \<le> j \<Longrightarrow> ?out1 ! j = out ! j"
    by auto
  show ?case
  proof (cases "2 \<le> ?m")
    case True
    then have "2 \<le> n" by (simp add: word_le_nat_alt)
    then have un: "unat (n - 2) = ?m - 2" by (simp add: unat_sub)
    with True have lt: "unat (n - 2) < ?m" by simp
    have n': "unat (n - 2) + 2 \<le> length inp" using un n by simp
    from less.hyps [OF lt len1 ol1 n'] obtain out' where
      r: "to_hex_loop ?out1 outlen inp inlen (n - 2) = Inr out'" and l: "length out' = length ?out1"
      and a: "\<forall>j. 2 * (unat (n - 2) mod 2) \<le> j \<and> j < 2 * unat (n - 2) + 4 \<longrightarrow> out' ! j = hex_of inp ! j"
      and b: "\<forall>j. j < 2 * (unat (n - 2) mod 2) \<or> 2 * unat (n - 2) + 4 \<le> j \<longrightarrow> out' ! j = ?out1 ! j"
      by blast
    have "?m = unat (n - 2) + 2" using un True by simp
    then have "?m mod 2 = (unat (n - 2) + 2) mod 2" by (rule arg_cong)
    then have par: "unat (n - 2) mod 2 = ?m mod 2" by simp
    have un4: "2 * unat (n - 2) + 4 = 2 * ?m" using un True by simp
    have A: "\<forall>j. 2 * (?m mod 2) \<le> j \<and> j < 2 * ?m + 4 \<longrightarrow> out' ! j = hex_of inp ! j"
    proof (intro allI impI)
      fix j assume j: "2 * (?m mod 2) \<le> j \<and> j < 2 * ?m + 4"
      show "out' ! j = hex_of inp ! j"
      proof (cases "j < 2 * ?m")
        case True
        with j a par un4 show ?thesis by simp
      next
        case False
        with b un4 have "out' ! j = ?out1 ! j" by simp
        with new [of j] False j show ?thesis by simp
      qed
    qed
    have B: "\<forall>j. j < 2 * (?m mod 2) \<or> 2 * ?m + 4 \<le> j \<longrightarrow> out' ! j = out ! j"
    proof (intro allI impI)
      fix j assume j: "j < 2 * (?m mod 2) \<or> 2 * ?m + 4 \<le> j"
      then have "j < 2 * (unat (n - 2) mod 2) \<or> 2 * unat (n - 2) + 4 \<le> j" using par un4 by auto
      with b have "out' ! j = ?out1 ! j" by blast
      moreover from j have "j < 2 * ?m \<or> 2 * ?m + 4 \<le> j" by (cases "?m mod 2 = 0") auto
      ultimately show "out' ! j = out ! j" using old [of j] by simp
    qed
    from step r l A B show ?thesis by (auto simp: lo len1)
  next
    case False
    then have m2: "?m < 2" by simp
    have "unat (n - 2) = ?m + 2 ^ 64 - 2"
      using m2 unat_sub_if_size [of n 2] by (simp add: word_size)
    with sub n small have "\<not> n - 2 \<le> inlen - 2" by (simp add: word_le_nat_alt)
    then have r: "to_hex_loop ?out1 outlen inp inlen (n - 2) = Inr ?out1"
      by (rule to_hex_loop_exit)
    have A: "\<forall>j. 2 * (?m mod 2) \<le> j \<and> j < 2 * ?m + 4 \<longrightarrow> ?out1 ! j = hex_of inp ! j"
    proof (intro allI impI)
      fix j assume j: "2 * (?m mod 2) \<le> j \<and> j < 2 * ?m + 4"
      from m2 have "?m mod 2 = ?m" by simp
      with j have "2 * ?m \<le> j" and "j < 2 * ?m + 4" by simp_all
      then show "?out1 ! j = hex_of inp ! j" by (rule new)
    qed
    have B: "\<forall>j. j < 2 * (?m mod 2) \<or> 2 * ?m + 4 \<le> j \<longrightarrow> ?out1 ! j = out ! j"
    proof (intro allI impI)
      fix j assume j: "j < 2 * (?m mod 2) \<or> 2 * ?m + 4 \<le> j"
      from m2 have "?m mod 2 = ?m" by simp
      with j have "j < 2 * ?m \<or> 2 * ?m + 4 \<le> j" by simp
      then show "?out1 ! j = out ! j" by (rule old)
    qed
    from step r A B show ?thesis by (auto simp: lo len1)
  qed
qed


lemma unat_of_nat_small: "N < 2 ^ 63 \<Longrightarrow> unat (of_nat N :: size_t) = N"
  by (subst unat_of_nat) simp

lemma to_hex_string_in:
  assumes two: "2 \<le> length inp" and small: "length inp < 2 ^ 62"
    and lo: "length out = 2 * length inp"
  shows "to_hex_string out (of_nat (length out)) inp (of_nat (length inp)) =
           Inr (hex_of inp, of_nat (2 * length inp))"
proof -
  let ?N = "length inp"
  let ?inlen = "of_nat ?N :: size_t"
  let ?outlen = "of_nat (length out) :: size_t"
  have il: "unat ?inlen = ?N" using small by (intro unat_of_nat_small) simp
  have ol: "unat ?outlen = length out" using small lo by (intro unat_of_nat_small) simp
  have twice: "?inlen * 2 = ?outlen" by (simp add: lo mult.commute)
  have nolt: "\<not> ?outlen < ?inlen * 2" by (simp add: twice)
  from two il have "(2 :: size_t) \<le> ?inlen" by (simp add: word_le_nat_alt)
  then have sub: "unat (?inlen - 2) = ?N - 2" using il by (simp add: unat_sub)
  then have n: "unat (?inlen - 2) + 2 \<le> ?N" using two by simp
  from to_hex_loop_in [OF il lo ol small n] obtain out1 where
    r: "to_hex_loop out ?outlen inp ?inlen (?inlen - 2) = Inr out1" and l: "length out1 = length out"
    and a: "\<forall>j. 2 * (unat (?inlen - 2) mod 2) \<le> j \<and> j < 2 * unat (?inlen - 2) + 4 \<longrightarrow>
              out1 ! j = hex_of inp ! j"
    by blast
  have up: "2 * unat (?inlen - 2) + 4 = 2 * ?N" using sub two by simp
  have "?N = (?N - 2) + 2" using two by simp
  then have "?N mod 2 = (?N - 2 + 2) mod 2" by (rule arg_cong)
  then have par: "unat (?inlen - 2) mod 2 = ?N mod 2" using sub by simp
  have a': "\<And>j. 2 * (?N mod 2) \<le> j \<Longrightarrow> j < 2 * ?N \<Longrightarrow> out1 ! j = hex_of inp ! j"
    using a up par by simp
  have odd: "(?inlen AND 1 \<noteq> 0) = (?N mod 2 = 1)"
  proof -
    have "unat (?inlen AND 1) = ?N mod 2" by (simp add: and_one_eq unat_mod il)
    then show ?thesis by (cases "?N mod 2 = 0") (auto simp: unat_eq_0 [symmetric] simp del: unat_eq_0)
  qed
  show ?thesis
  proof (cases "?N mod 2 = 1")
    case False
    then have ev: "?N mod 2 = 0" by arith
    have "out1 = hex_of inp"
      by (rule nth_equalityI) (use l lo a' ev in \<open>simp_all add: length_hex_of\<close>)
    with nolt r odd False show ?thesis by (simp add: to_hex_string_def)
  next
    case True
    have z: "0 < ?N" using two by (cases inp) simp_all
    have r0: "rd inp ?inlen 0 = Some (inp ! 0)"
      using rd_in [OF il, of 0] z by simp
    have w1: "wr out1 ?outlen 1 (hi_digit (inp ! 0)) = Some (out1[1 := hi_digit (inp ! 0)])"
      using wr_in [of ?outlen out1 1] ol l lo two z by simp
    have w0: "wr (out1[1 := hi_digit (inp ! 0)]) ?outlen 0 (lo_digit (inp ! 0)) =
        Some (out1[1 := hi_digit (inp ! 0), 0 := lo_digit (inp ! 0)])"
      using wr_in [of ?outlen "out1[1 := hi_digit (inp ! 0)]" 0] ol l lo two z by simp
    have "out1[1 := hi_digit (inp ! 0), 0 := lo_digit (inp ! 0)] = hex_of inp"
    proof (rule nth_equalityI)
      show "length (out1[1 := hi_digit (inp ! 0), 0 := lo_digit (inp ! 0)]) = length (hex_of inp)"
        using l lo by (simp add: length_hex_of)
    next
      fix j assume "j < length (out1[1 := hi_digit (inp ! 0), 0 := lo_digit (inp ! 0)])"
      then have j: "j < 2 * ?N" using l lo by simp
      show "out1[1 := hi_digit (inp ! 0), 0 := lo_digit (inp ! 0)] ! j = hex_of inp ! j"
      proof (cases "j < 2")
        case True
        then have "j = 0 \<or> j = 1" by arith
        then show ?thesis using hex_of_nth [OF z] l lo two z by auto
      next
        case False
        with a' [of j] j True show ?thesis by simp
      qed
    qed
    with nolt r odd True r0 w1 w0 show ?thesis by (simp add: to_hex_string_def)
  qed
qed


lemma hex_of_nth_lo: "i < length b \<Longrightarrow> hex_of b ! (2 * i) = lo_digit (b ! i)"
  and hex_of_nth_hi: "i < length b \<Longrightarrow> hex_of b ! (2 * i + 1) = hi_digit (b ! i)"
  using hex_of_nth [of i b] by simp_all

lemma from_hex_body4_in:
  assumes il: "unat inlen = 2 * length b" and ol: "unat outlen = length out"
    and lo: "length out = length b" and small: "length b < 2 ^ 61"
    and n: "unat n + 4 \<le> length b"
  shows "from_hex_body4 out outlen (hex_of b) inlen v n =
           Some (out[unat n := b ! unat n, unat n + 1 := b ! (unat n + 1),
                     unat n + 2 := b ! (unat n + 2), unat n + 3 := b ! (unat n + 3)], v)"
proof -
  let ?m = "unat n"
  from n small have ns: "?m < 2 ^ 62" by simp
  have il': "unat inlen = length (hex_of b)" using il by (simp add: length_hex_of)
  have rdc: "\<And>c. c < 8 \<Longrightarrow> rd (hex_of b) inlen (n * 2 + of_nat c) = Some (hex_of b ! (2 * ?m + c))"
  proof -
    fix c :: nat assume c: "c < 8"
    have u: "unat (n * 2 + of_nat c) = 2 * ?m + c" by (rule unat_twice_plus [OF ns c])
    have "2 * ?m + c < length (hex_of b)" using n c by (simp add: length_hex_of)
    with rd_in [OF il', of "n * 2 + of_nat c"] u show "rd (hex_of b) inlen (n * 2 + of_nat c) = Some (hex_of b ! (2 * ?m + c))"
      by simp
  qed
  have lo_at: "\<And>c i. c < 8 \<Longrightarrow> i < length b \<Longrightarrow> 2 * ?m + c = 2 * i \<Longrightarrow>
      rd (hex_of b) inlen (n * 2 + of_nat c) = Some (lo_digit (b ! i))"
    using rdc hex_of_nth_lo by simp
  have hi_at: "\<And>c i. c < 8 \<Longrightarrow> i < length b \<Longrightarrow> 2 * ?m + c = 2 * i + 1 \<Longrightarrow>
      rd (hex_of b) inlen (n * 2 + of_nat c) = Some (hi_digit (b ! i))"
    using rdc hex_of_nth_hi by simp
  have r0: "rd (hex_of b) inlen (n * 2) = Some (lo_digit (b ! ?m))"
    using lo_at [of 0 ?m] n by simp
  have r1: "rd (hex_of b) inlen (n * 2 + 1) = Some (hi_digit (b ! ?m))"
    using hi_at [of 1 ?m] n by simp
  have r2: "rd (hex_of b) inlen (n * 2 + 2) = Some (lo_digit (b ! (?m + 1)))"
    using lo_at [of 2 "?m + 1"] n by simp
  have r3: "rd (hex_of b) inlen (n * 2 + 3) = Some (hi_digit (b ! (?m + 1)))"
    using hi_at [of 3 "?m + 1"] n by simp
  have r4: "rd (hex_of b) inlen (n * 2 + 4) = Some (lo_digit (b ! (?m + 2)))"
    using lo_at [of 4 "?m + 2"] n by simp
  have r5: "rd (hex_of b) inlen (n * 2 + 5) = Some (hi_digit (b ! (?m + 2)))"
    using hi_at [of 5 "?m + 2"] n by simp
  have r6: "rd (hex_of b) inlen (n * 2 + 6) = Some (lo_digit (b ! (?m + 3)))"
    using lo_at [of 6 "?m + 3"] n by simp
  have r7: "rd (hex_of b) inlen (n * 2 + 7) = Some (hi_digit (b ! (?m + 3)))"
    using hi_at [of 7 "?m + 3"] n by simp
  have u1: "unat (n + 1) = ?m + 1" using unat_plus_small [OF ns, of 1] by simp
  have u2: "unat (n + 2) = ?m + 2" using unat_plus_small [OF ns, of 2] by simp
  have u3: "unat (n + 3) = ?m + 3" using unat_plus_small [OF ns, of 3] by simp
  have w: "\<And>buf i x. length buf = length out \<Longrightarrow> unat i < length out \<Longrightarrow>
      wr buf outlen i x = Some (buf[unat i := x])"
    using ol by (simp add: wr_in)
  show ?thesis
    unfolding from_hex_body4_def
    using n lo
    by (simp add: r0 r1 r2 r3 r4 r5 r6 r7 w u1 u2 u3 fromhex_lo_digit fromhex_hi_digit combine_digits)
qed


lemma from_hex_loop4_in:
  assumes il: "unat inlen = 2 * length b" and small: "length b < 2 ^ 61" and d: "4 dvd length b"
    and lo: "length out = length b" and ol: "unat outlen = length out"
    and dn: "4 dvd unat n" and le: "unat n \<le> length b"
  shows "\<exists>out'. from_hex_loop4 out outlen (hex_of b) inlen v n = Inr (out', v) \<and>
           length out' = length out \<and>
           (\<forall>j. unat n \<le> j \<and> j < length b \<longrightarrow> out' ! j = b ! j) \<and>
           (\<forall>j < unat n. out' ! j = out ! j)"
  using lo ol dn le
proof (induction "length b - unat n" arbitrary: n out rule: less_induct)
  case less
  let ?m = "unat n"
  note lo = less.prems(1) and ol = less.prems(2) and dn = less.prems(3) and le = less.prems(4)
  have half: "unat (inlen div 2) = length b" using il by (simp add: unat_div)
  show ?case
  proof (cases "?m = length b")
    case True
    then have "\<not> n < inlen div 2" by (simp add: word_less_nat_alt half)
    then have "from_hex_loop4 out outlen (hex_of b) inlen v n = Inr (out, v)"
      by (simp add: from_hex_loop4.simps)
    with True show ?thesis by auto
  next
    case False
    with le have lt: "?m < length b" by simp
    from dn d lt have n4: "?m + 4 \<le> length b" by (auto elim!: dvdE)
    let ?out1 = "out[?m := b ! ?m, ?m + 1 := b ! (?m + 1), ?m + 2 := b ! (?m + 2), ?m + 3 := b ! (?m + 3)]"
    have cond: "n < inlen div 2" using lt by (simp add: word_less_nat_alt half)
    have body: "from_hex_body4 out outlen (hex_of b) inlen v n = Some (?out1, v)"
      by (rule from_hex_body4_in [OF il ol lo small n4])
    have step: "from_hex_loop4 out outlen (hex_of b) inlen v n =
        from_hex_loop4 ?out1 outlen (hex_of b) inlen v (n + 4)"
      using cond body by (simp add: from_hex_loop4.simps)
    from lt small have ns: "?m < 2 ^ 62" by simp
    have u4: "unat (n + 4) = ?m + 4" using unat_plus_small [OF ns, of 4] by simp
    have less': "length b - unat (n + 4) < length b - ?m" using u4 lt by simp
    have lo1: "length ?out1 = length b" using lo by simp
    have ol1: "unat outlen = length ?out1" using ol by simp
    have dn1: "4 dvd unat (n + 4)" using dn u4 by simp
    have le1: "unat (n + 4) \<le> length b" using u4 n4 by simp
    from less.hyps [OF less' lo1 ol1 dn1 le1] obtain out' where
      r: "from_hex_loop4 ?out1 outlen (hex_of b) inlen v (n + 4) = Inr (out', v)"
      and l: "length out' = length ?out1"
      and a: "\<forall>j. unat (n + 4) \<le> j \<and> j < length b \<longrightarrow> out' ! j = b ! j"
      and k: "\<forall>j < unat (n + 4). out' ! j = ?out1 ! j"
      by blast
    have A: "\<forall>j. ?m \<le> j \<and> j < length b \<longrightarrow> out' ! j = b ! j"
    proof (intro allI impI)
      fix j assume j: "?m \<le> j \<and> j < length b"
      show "out' ! j = b ! j"
      proof (cases "?m + 4 \<le> j")
        case True
        with a u4 j show ?thesis by simp
      next
        case False
        with k u4 have e: "out' ! j = ?out1 ! j" by simp
        from False j consider "j = ?m" | "j = ?m + 1" | "j = ?m + 2" | "j = ?m + 3" by arith
        then have "?out1 ! j = b ! j" using lo n4 by cases simp_all
        with e show ?thesis by simp
      qed
    qed
    have B: "\<forall>j < ?m. out' ! j = out ! j"
    proof (intro allI impI)
      fix j assume j: "j < ?m"
      with k u4 have "out' ! j = ?out1 ! j" by simp
      with j show "out' ! j = out ! j" by simp
    qed
    from step r l lo1 lo A B show ?thesis by simp
  qed
qed

lemma from_hex_string_in:
  assumes d: "4 dvd length b" and small: "length b < 2 ^ 61" and lo: "length out = length b"
  shows "from_hex_string out (of_nat (length out)) (hex_of b) (of_nat (length (hex_of b))) =
           Inr (b, of_nat (length b))"
proof -
  let ?inlen = "of_nat (length (hex_of b)) :: size_t"
  let ?outlen = "of_nat (length out) :: size_t"
  have il: "unat ?inlen = 2 * length b"
    using small by (simp only: length_hex_of) (intro unat_of_nat_small, simp)
  have ol: "unat ?outlen = length out" using small lo by (intro unat_of_nat_small) simp
  have half: "unat (?inlen div 2) = length b" using il by (simp add: unat_div)
  have half': "?inlen div 2 = of_nat (length b)"
    using half small by (simp add: word_unat_eq_iff unat_of_nat_small)
  have even: "?inlen mod 2 = 0"
    using il by (simp add: word_unat_eq_iff unat_mod)
  have fits: "\<not> ?outlen < ?inlen div 2" using ol lo half by (simp add: word_less_nat_alt)
  have rest: "(?inlen div 2) mod 4 = 0"
    using d by (simp add: word_unat_eq_iff unat_mod half)
  from from_hex_loop4_in [OF il small d lo ol, of 0 False] obtain out1 where
    r: "from_hex_loop4 out ?outlen (hex_of b) ?inlen False 0 = Inr (out1, False)"
    and l: "length out1 = length out"
    and a: "\<forall>j. unat (0 :: size_t) \<le> j \<and> j < length b \<longrightarrow> out1 ! j = b ! j"
    by auto
  have out1: "out1 = b" by (rule nth_equalityI) (use l lo a in simp_all)
  have tail: "from_hex_loop1 b ?outlen (hex_of b) ?inlen False (?inlen div 2) = Inr (b, False)"
    by (subst from_hex_loop1.simps) simp
  have start: "?inlen div 2 - (?inlen div 2) mod 4 = ?inlen div 2" by (simp only: rest) simp
  show ?thesis
    unfolding from_hex_string_def start
    using even fits r out1 tail half' by simp
qed

lemma hex_round_trip_in:
  assumes d: "4 dvd length b" and pos: "b \<noteq> []" and small: "length b < 2 ^ 61"
  shows "to_hex_string_s b = Inr (hex_of b) \<and>
         from_hex_string (replicate (length b) 0) (of_nat (length b)) (hex_of b)
           (of_nat (length (hex_of b))) = Inr (b, of_nat (length b))"
proof -
  from d obtain k where k: "length b = 4 * k" by (auto elim!: dvdE)
  from pos have "length b \<noteq> 0" by simp
  with k have "k \<noteq> 0" by simp
  with k have two: "2 \<le> length b" by simp
  have "to_hex_string (replicate (length b * 2) 32) (of_nat (length (replicate (length b * 2) (32 :: byte))))
      b (of_nat (length b)) = Inr (hex_of b, of_nat (2 * length b))"
    using small by (intro to_hex_string_in [OF two]) simp_all
  then have 1: "to_hex_string_s b = Inr (hex_of b)"
    by (simp add: to_hex_string_s_def Let_def)
  have 2: "from_hex_string (replicate (length b) 0) (of_nat (length (replicate (length b) (0 :: byte))))
      (hex_of b) (of_nat (length (hex_of b))) = Inr (b, of_nat (length b))"
    by (rule from_hex_string_in [OF d small]) simp
  from 1 2 show ?thesis by simp
qed

text \<open>
  C9 (hex round trip). The digits are right, and so are the conversions of most buffers:
  by the lemmas above \<^verbatim>\<open>to_hex_string\<close> stays within bounds and writes the hexadecimal
  string for every buffer of at least two bytes, and \<^verbatim>\<open>from_hex_string\<close> stays within
  bounds and gives the buffer back whenever the number of bytes is a multiple of four.
  The loops fail at their ends. \<^verbatim>\<open>to_hex_string\<close> starts its loop at \<^verbatim>\<open>inlen - 2\<close>,
  which wraps around for a buffer of one byte or none, and then reads and writes before
  the buffers. \<^verbatim>\<open>from_hex_string\<close> decodes four bytes at a time while
  \<^verbatim>\<open>n < inlen / 2\<close>, so for a number of bytes that is not a multiple of four its last
  round reads past the input and writes past the output: the four characters that
  \<^verbatim>\<open>to_hex_string\<close> produces for two bytes are not decoded within bounds.
\<close>

theorem hex_round_trip_out_of_bounds:
  "to_hex_string [32, 32] 2 [171] 1 = Inl Out_of_bounds \<and>
   to_hex_string [] 0 [] 0 = Inl Out_of_bounds \<and>
   to_hex_string [32, 32, 32, 32] 4 [27, 42] 2 = Inr ([98, 49, 97, 50], 4) \<and>
   from_hex_string [0, 0] 2 [98, 49, 97, 50] 4 = Inl Out_of_bounds"
  by code_simp

end
